theory Spec2Isabelle
  imports Main "HOL-Library.Word" "HOL-Library.Signed_Division"
begin

section \<open>Configuration of the flip clock (flipclock.ino, lines 7-59)\<close>

text \<open>
  The sketch targets the Pro Micro (an AVR board): \<open>byte\<close> is an 8-bit and
  \<open>unsigned int\<close> a 16-bit unsigned integer, \<open>int\<close> is 16 bits wide. Values of
  both unsigned types are words, so that every addition and subtraction wraps as on
  the board.
\<close>

type_synonym byte = "8 word"
type_synonym uint = "16 word"

definition STEPS_PER_REV :: uint where
  "STEPS_PER_REV = 4096"

definition ENDSTOP_DEBOUNCE_READS :: byte where
  "ENDSTOP_DEBOUNCE_READS = 3"

text \<open>Pin numbers only name an output or an input line; they are natural numbers.\<close>

definition stepper_pins :: "nat list list" where
  "stepper_pins = [[7, 6, 5, 4], [16, 10, 9, 8], [14, 15, 18, 19]]"

definition endstop_pins :: "nat list" where
  "endstop_pins = [21, 20, 20]"

definition starting_digits :: "byte list" where
  "starting_digits = [0, 0, 9]"

definition starting_offset :: "uint list" where
  "starting_offset = [110, 80, 265]"

section \<open>The clock peripheral's date-time\<close>

text \<open>
  Modelled from the spec: the \<open>DateTime\<close> and \<open>TimeSpan\<close> classes of the clock
  library (RTClib) are not part of the sources. A date-time is the record of its
  calendar fields; the year is stored as an offset from 2000, as the library does
  for the years 2000 to 2099 the clock chip counts.
\<close>

record DateTime =
  yOff :: nat
  month :: nat
  day :: nat
  hour :: nat
  minute :: nat
  second :: nat

definition year :: "DateTime \<Rightarrow> nat" where
  "year dt = 2000 + yOff dt"

text \<open>Modelled from the spec: the constructor \<open>DateTime(year, month, day, hour, min, sec)\<close>.\<close>

definition mkDateTime :: "nat \<Rightarrow> nat \<Rightarrow> nat \<Rightarrow> nat \<Rightarrow> nat \<Rightarrow> nat \<Rightarrow> DateTime" where
  "mkDateTime y m d hh mm ss =
     \<lparr>yOff = (if 2000 \<le> y then y - 2000 else y), month = m, day = d,
      hour = hh, minute = mm, second = ss\<rparr>"

text \<open>
  Modelled from the spec: the number of days in a month, and the days from
  2000-01-01 (day 0) to a date, for the years 2000 to 2099 (every fourth year a
  leap year).
\<close>

definition days_in_month :: "nat \<Rightarrow> nat \<Rightarrow> nat" where
  "days_in_month y m =
     (if m = 2 then (if y mod 4 = 0 then 29 else 28)
      else if m = 4 \<or> m = 6 \<or> m = 9 \<or> m = 11 then 30 else 31)"

definition date2days :: "nat \<Rightarrow> nat \<Rightarrow> nat \<Rightarrow> nat" where
  "date2days y m d =
     d + (\<Sum>i \<leftarrow> [1..<m]. days_in_month 1 i) + (if 2 < m \<and> y mod 4 = 0 then 1 else 0)
       + 365 * y + (y + 3) div 4 - 1"

text \<open>
  Modelled from the spec: \<open>dayOfTheWeek()\<close>, 0 for Sunday up to 6 for Saturday;
  2000-01-01 was a Saturday.
\<close>

definition dayOfTheWeek :: "DateTime \<Rightarrow> nat" where
  "dayOfTheWeek dt = (date2days (yOff dt) (month dt) (day dt) + 6) mod 7"

text \<open>
  Modelled from the spec: \<open>dt + TimeSpan(k, 0, 0, 0)\<close>, the date-time \<open>k\<close> whole
  days later, one calendar day at a time.
\<close>

definition next_day :: "DateTime \<Rightarrow> DateTime" where
  "next_day dt =
     (if day dt < days_in_month (yOff dt) (month dt) then dt\<lparr>day := day dt + 1\<rparr>
      else if month dt < 12 then dt\<lparr>month := month dt + 1, day := 1\<rparr>
      else dt\<lparr>yOff := yOff dt + 1, month := 1, day := 1\<rparr>)"

fun plus_days :: "DateTime \<Rightarrow> nat \<Rightarrow> DateTime" where
  "plus_days dt 0 = dt"
| "plus_days dt (Suc k) = plus_days (next_day dt) k"

text \<open>Modelled from the spec: the comparison operators \<open><\<close> and \<open>>=\<close> of \<open>DateTime\<close>.\<close>

definition dt_less :: "DateTime \<Rightarrow> DateTime \<Rightarrow> bool" where
  "dt_less a b \<longleftrightarrow>
     yOff a < yOff b \<or> (yOff a = yOff b \<and>
      (month a < month b \<or> (month a = month b \<and>
       (day a < day b \<or> (day a = day b \<and>
        (hour a < hour b \<or> (hour a = hour b \<and>
         (minute a < minute b \<or> (minute a = minute b \<and> second a < second b)))))))))"

definition dt_ge :: "DateTime \<Rightarrow> DateTime \<Rightarrow> bool" where
  "dt_ge a b \<longleftrightarrow> \<not> dt_less a b"

section \<open>Program state\<close>

datatype level = LOW | HIGH

text \<open>
  The globals of the sketch (lines 61-72) and the levels last written to the output
  pins. Two fields are not in the sketch and only record what it did: \<open>trace\<close>
  lists, in order, the wheel of every half-step taken, and \<open>reads\<close> counts the
  endstop samples taken so far.
\<close>

record state =
  stepper_pos :: "uint list"
  drive_step :: "byte list"
  year_old :: uint
  dst_start :: DateTime
  dst_end :: DateTime
  pins :: "nat \<Rightarrow> level"
  trace :: "nat list"
  reads :: nat

text \<open>
  \<open>e_stop\<close> (lines 75-86) never returns: with the LED pin defined it blinks forever.
  An operation therefore either returns or halts for good, in the state it had
  reached.
\<close>

datatype 'a outcome = Halted state | Returned 'a

definition digitalWrite :: "nat \<Rightarrow> level \<Rightarrow> state \<Rightarrow> state" where
  "digitalWrite pin v s = s\<lparr>pins := (pins s)(pin := v)\<rparr>"

text \<open>
  The endstop lines are inputs. \<open>sensor pin i\<close> is the level that the \<open>i\<close>-th sample
  taken by the program (counting all samples from 0) finds on \<open>pin\<close>.
\<close>

definition digitalRead :: "(nat \<Rightarrow> nat \<Rightarrow> level) \<Rightarrow> nat \<Rightarrow> state \<Rightarrow> level \<times> state" where
  "digitalRead sensor pin s = (sensor pin (reads s), s\<lparr>reads := reads s + 1\<rparr>)"

section \<open>Half-step driver and position tracker (lines 88-120)\<close>

definition disable_stepper :: "nat \<Rightarrow> state \<Rightarrow> state" where
  "disable_stepper n s =
     digitalWrite (stepper_pins ! n ! 3) LOW
      (digitalWrite (stepper_pins ! n ! 2) LOW
        (digitalWrite (stepper_pins ! n ! 1) LOW
          (digitalWrite (stepper_pins ! n ! 0) LOW s)))"

definition half_step :: "nat \<Rightarrow> state \<Rightarrow> state" where
  "half_step n s =
     (let pos = unat (drive_step s ! n);
          row = stepper_pins ! n;
          s1 = (if pos mod 2 = 1 then
                  digitalWrite (row ! ((pos div 2) mod 4)) LOW
                   (digitalWrite (row ! ((pos div 2 + 3) mod 4)) LOW
                     (digitalWrite (row ! ((pos div 2 + 2) mod 4)) LOW
                       (digitalWrite (row ! ((pos div 2 + 1) mod 4)) HIGH s)))
                else
                  digitalWrite (row ! ((pos div 2 + 3) mod 4)) LOW
                   (digitalWrite (row ! ((pos div 2 + 2) mod 4)) LOW
                     (digitalWrite (row ! ((pos div 2 + 1) mod 4)) HIGH
                       (digitalWrite (row ! ((pos div 2) mod 4)) HIGH s))))
      in s1\<lparr>drive_step := (drive_step s1)[n := of_nat ((unat (drive_step s1 ! n) + 1) mod 8)],
            trace := trace s1 @ [n]\<rparr>)"

text \<open>The \<open>while (steps > 0)\<close> loop of \<open>step_num\<close>; the delay changes nothing modelled.\<close>

function step_loop :: "nat \<Rightarrow> uint \<Rightarrow> state \<Rightarrow> state" where
  "step_loop n steps s = (if 0 < steps then step_loop n (steps - 1) (half_step n s) else s)"
  by pat_completeness auto
termination
  by (relation "measure (\<lambda>(n, steps, s). unat steps)")
     (auto simp: unat_minus_one word_gt_0 unat_gt_0)

definition step_num :: "nat \<Rightarrow> uint \<Rightarrow> state \<Rightarrow> state" where
  "step_num n steps s =
     step_loop n steps
       (s\<lparr>stepper_pos := (stepper_pos s)[n := (stepper_pos s ! n + steps) mod STEPS_PER_REV]\<rparr>)"

section \<open>Homing controller (lines 122-156)\<close>

text \<open>
  The two \<open>while\<close> loops of \<open>step_to_home\<close> differ only in the level they wait
  for, \<open>want\<close>: each round samples the wheel's endstop, counts the sample if it reads
  \<open>want\<close> and starts the count again if not, takes one half-step, adds one to
  \<open>total_steps\<close>, and halts (coils off, then \<open>e_stop\<close>) once \<open>total_steps\<close> is above
  \<open>STEPS_PER_REV * 2u\<close>. The loop hands \<open>total_steps\<close> back with the state.
\<close>

function seek :: "level \<Rightarrow> (nat \<Rightarrow> nat \<Rightarrow> level) \<Rightarrow> nat \<Rightarrow> uint \<Rightarrow> byte \<Rightarrow> state
    \<Rightarrow> (uint \<times> state) outcome" where
  "seek want sensor n total_steps endstop_repeats s =
     (if endstop_repeats < ENDSTOP_DEBOUNCE_READS then
        (let r = digitalRead sensor (endstop_pins ! n) s;
             endstop_repeats' = (if fst r = want then endstop_repeats + 1 else 0);
             s' = half_step n (snd r);
             total_steps' = total_steps + 1
         in if STEPS_PER_REV * 2 < total_steps' then Halted (disable_stepper n s')
            else seek want sensor n total_steps' endstop_repeats' s')
      else Returned (total_steps, s))"
  by pat_completeness auto
termination
proof (relation "measure (\<lambda>(want, sensor, n, total_steps, endstop_repeats, s).
                   unat (8193 - total_steps))", goal_cases)
  case 1
  show ?case by simp
next
  case (2 want sensor n total_steps endstop_repeats s r rep' s' total_steps')
  have lt: "unat total_steps < 65536"
    using unsigned_less [of total_steps, where 'a = nat] by simp
  have "(unat total_steps + 1) mod 65536 =
          (if unat total_steps + 1 < 65536 then unat total_steps + 1 else 0)"
    using lt by (simp add: mod_if)
  then have "unat (total_steps + 1) =
          (if unat total_steps + 1 < 65536 then unat total_steps + 1 else 0)"
    by (simp add: unat_word_ariths)
  with 2 lt show ?case
    by (auto simp: STEPS_PER_REV_def word_less_nat_alt not_less unat_sub_if'
             split: if_splits)
qed

definition step_to_home :: "(nat \<Rightarrow> nat \<Rightarrow> level) \<Rightarrow> nat \<Rightarrow> state \<Rightarrow> state outcome" where
  "step_to_home sensor n s =
     (case seek LOW sensor n 0 0 s of
        Halted h \<Rightarrow> Halted h
      | Returned (total_steps, s1) \<Rightarrow>
          (case seek HIGH sensor n total_steps 0 s1 of
             Halted h \<Rightarrow> Halted h
           | Returned (total_steps', s2) \<Rightarrow>
               Returned (s2\<lparr>stepper_pos := (stepper_pos s2)[n := 0]\<rparr>)))"

section \<open>Position planner (lines 158-174)\<close>

definition step_to_position :: "(nat \<Rightarrow> nat \<Rightarrow> level) \<Rightarrow> nat \<Rightarrow> uint \<Rightarrow> state
    \<Rightarrow> state outcome" where
  "step_to_position sensor n target_pos s =
     (if target_pos = stepper_pos s ! n then Returned s
      else
        (let target_pos' = target_pos mod STEPS_PER_REV in
         if target_pos' < stepper_pos s ! n then
           (case step_to_home sensor n s of
              Halted h \<Rightarrow> Halted h
            | Returned s1 \<Rightarrow> Returned (step_num n target_pos' s1))
         else Returned (step_num n (target_pos' - stepper_pos s ! n) s)))"

section \<open>Digit mapper (lines 176-205)\<close>

definition num_flaps :: "nat \<Rightarrow> byte" where
  "num_flaps n = (if n = 2 then 10 else 12)"

definition num_digits :: "nat \<Rightarrow> byte" where
  "num_digits n = (if n = 0 then 12 else if n = 1 then 6 else 10)"

text \<open>
  Line 185. The bytes are promoted to \<open>int\<close> for the sum, the difference and the
  remainder (C's \<open>%\<close> takes the sign of the dividend, as \<open>smod\<close> does); the cast to
  \<open>unsigned int\<close> binds tighter than \<open>*\<close>, and \<open>*\<close> and \<open>/\<close> associate to the left,
  so the product with \<open>STEPS_PER_REV\<close> is formed first, in 16 bits, and then divided.
\<close>

definition target_pos :: "nat \<Rightarrow> byte \<Rightarrow> uint" where
  "target_pos n digit =
     starting_offset ! n +
       (word_of_int ((uint (num_digits n) + uint digit - uint (starting_digits ! n))
                       smod uint (num_digits n)) * STEPS_PER_REV)
         div ucast (num_flaps n)"

definition second_target :: "nat \<Rightarrow> byte \<Rightarrow> uint" where
  "second_target n digit = target_pos n digit + STEPS_PER_REV div 2"

definition step_to_digit :: "(nat \<Rightarrow> nat \<Rightarrow> level) \<Rightarrow> nat \<Rightarrow> byte \<Rightarrow> state
    \<Rightarrow> state outcome" where
  "step_to_digit sensor n digit s =
     (case (if n = 1 then
              (if target_pos n digit < stepper_pos s ! n
                  \<and> stepper_pos s ! n \<le> second_target n digit
               then step_to_position sensor n (second_target n digit) s
               else step_to_position sensor n (target_pos n digit) s)
            else step_to_position sensor n (target_pos n digit) s) of
        Halted h \<Rightarrow> Halted h
      | Returned s' \<Rightarrow> Returned (disable_stepper n s'))"

section \<open>Boot: clearing the shared endstop (lines 255-275)\<close>

text \<open>
  The \<open>while\<close> loop of lines 259-274, with the counter \<open>total_steps\<close> of line 257.
\<close>

function clear_loop :: "(nat \<Rightarrow> nat \<Rightarrow> level) \<Rightarrow> uint \<Rightarrow> state \<Rightarrow> (uint \<times> state) outcome" where
  "clear_loop sensor total_steps s =
     (let r = digitalRead sensor (endstop_pins ! 1) s in
      if fst r = LOW then
        (let s1 = disable_stepper 1 (step_num 1 200 (snd r));
             r2 = digitalRead sensor (endstop_pins ! 1) s1;
             s2 = (if fst r2 = LOW then disable_stepper 2 (step_num 2 200 (snd r2))
                   else snd r2);
             total_steps' = total_steps + 200
         in if STEPS_PER_REV < total_steps' then Halted s2
            else clear_loop sensor total_steps' s2)
      else Returned (total_steps, snd r))"
  by pat_completeness auto
termination
proof (relation "measure (\<lambda>(sensor, total_steps, s). unat (4096 - total_steps))", goal_cases)
  case 1
  show ?case by simp
next
  case (2 sensor total_steps s r s1 r2 s2 total_steps')
  have lt: "unat total_steps < 65536"
    using unsigned_less [of total_steps, where 'a = nat] by simp
  then have "unat total_steps + 200 < 2 * 65536" by linarith
  then have "(unat total_steps + 200) mod 65536 =
          (if unat total_steps + 200 < 65536 then unat total_steps + 200
           else unat total_steps + 200 - 65536)"
    by (simp add: mod_if)
  then have "unat (total_steps + 200) =
          (if unat total_steps + 200 < 65536 then unat total_steps + 200
           else unat total_steps + 200 - 65536)"
    by (simp add: unat_word_ariths)
  with 2 lt show ?case
    by (auto simp: STEPS_PER_REV_def word_less_nat_alt not_less unat_sub_if'
             split: if_splits)
qed

definition clear_shared_endstop :: "(nat \<Rightarrow> nat \<Rightarrow> level) \<Rightarrow> state \<Rightarrow> (uint \<times> state) outcome" where
  "clear_shared_endstop sensor s =
     (if endstop_pins ! 1 = endstop_pins ! 2 then clear_loop sensor 0 s
      else Returned (0, s))"

section \<open>Steady state: time to digits (lines 286-313)\<close>

text \<open>
  \<open>loop_digits\<close> is the part of \<open>loop\<close> before the three moves: the digits of the
  clock reading \<open>now\<close>, the daylight-saving cutoffs recomputed when the year differs
  from \<open>year_old\<close>, and the hour digit moved on by one between the cutoffs.
\<close>

definition loop_digits :: "DateTime \<Rightarrow> state \<Rightarrow> (byte \<times> byte \<times> byte) \<times> state" where
  "loop_digits now s =
     (let hr = (of_nat (hour now mod 12) :: byte);
          tens = (of_nat (minute now div 10) :: byte);
          ones = (of_nat (minute now mod 10) :: byte);
          s1 = (if of_nat (year now) \<noteq> year_old s then
                  s\<lparr>dst_start :=
                      plus_days (mkDateTime (year now) 3 8 2 0 0)
                        ((7 - dayOfTheWeek (mkDateTime (year now) 3 8 2 0 0)) mod 7),
                    dst_end :=
                      plus_days (mkDateTime (year now) 11 1 1 0 0)
                        ((7 - dayOfTheWeek (mkDateTime (year now) 11 1 1 0 0)) mod 7),
                    year_old := of_nat (year now)\<rparr>
                else s);
          hr' = (if dt_ge now (dst_start s1) \<and> dt_less now (dst_end s1)
                 then of_nat ((unat hr + 1) mod 12) else hr)
      in ((hr', tens, ones), s1))"

definition loop :: "(nat \<Rightarrow> nat \<Rightarrow> level) \<Rightarrow> DateTime \<Rightarrow> state \<Rightarrow> state outcome" where
  "loop sensor now s =
     (case loop_digits now s of
        ((hr, tens, ones), s1) \<Rightarrow>
          (case step_to_digit sensor 2 ones s1 of
             Halted h \<Rightarrow> Halted h
           | Returned s2 \<Rightarrow>
               (case step_to_digit sensor 1 tens s2 of
                  Halted h \<Rightarrow> Halted h
                | Returned s3 \<Rightarrow> step_to_digit sensor 0 hr s3)))"

section \<open>Notions used to state the properties\<close>

text \<open>The globals as the sketch initialises them (lines 62, 65, 70, 71), all outputs low.\<close>

definition init_state :: state where
  "init_state =
     \<lparr>stepper_pos = [0, 0, 0], drive_step = [0, 0, 0], year_old = 0,
      dst_start = mkDateTime 2000 1 1 0 0 0, dst_end = mkDateTime 2000 1 1 0 0 0,
      pins = (\<lambda>pin. LOW), trace = [], reads = 0\<rparr>"

text \<open>
  The digit mapper's target as the specification words it, with the per-flap step
  \<open>STEPS_PER_REV / flap_count\<close> computed first and then multiplied. It is compared
  with \<open>target_pos\<close>, which line 185 computes.
\<close>

definition unit_step_target :: "nat \<Rightarrow> byte \<Rightarrow> int" where
  "unit_step_target n digit =
     uint (starting_offset ! n) +
       ((uint (num_digits n) + uint digit - uint (starting_digits ! n)) mod uint (num_digits n))
         * (uint STEPS_PER_REV div uint (num_flaps n))"

text \<open>
  The invariant of the wheels: three positions, each below \<open>STEPS_PER_REV\<close>, and
  three half-step phases, each below 8.
\<close>

definition wheels_ok :: "state \<Rightarrow> bool" where
  "wheels_ok s \<longleftrightarrow>
     length (stepper_pos s) = 3 \<and> length (drive_step s) = 3 \<and>
     list_all (\<lambda>p. p < STEPS_PER_REV) (stepper_pos s) \<and>
     list_all (\<lambda>d. d < 8) (drive_step s)"

text \<open>
  The endstop lines have pull-ups and a pressed switch pulls its line low: lines
  255-259 step the wheels "until the endstop pin reads high" to have the endstops
  "unpressed", and \<open>step_to_home\<close> waits for low and then for high to "step until the
  endstop is pressed and released" (lines 122, 128, 142).
\<close>

definition pressed :: "level \<Rightarrow> bool" where
  "pressed v \<longleftrightarrow> v = LOW"

text \<open>What an operation returned, if it did, and the state in which it halted, if it did.\<close>

definition returned_value :: "'a outcome \<Rightarrow> 'a option" where
  "returned_value r = (case r of Returned x \<Rightarrow> Some x | Halted h \<Rightarrow> None)"

definition halted_state :: "'a outcome \<Rightarrow> state option" where
  "halted_state r = (case r of Returned x \<Rightarrow> None | Halted h \<Rightarrow> Some h)"

text \<open>
  Endstop lines used as concrete inputs: pressed for three samples and released
  from then on; released for 5000 samples and pressed from then on; never pressed.
\<close>

definition press_release :: "nat \<Rightarrow> nat \<Rightarrow> level" where
  "press_release pin i = (if i < 3 then LOW else HIGH)"

definition stuck_pressed :: "nat \<Rightarrow> nat \<Rightarrow> level" where
  "stuck_pressed pin i = (if i < 5000 then HIGH else LOW)"

definition never_pressed :: "nat \<Rightarrow> nat \<Rightarrow> level" where
  "never_pressed pin i = HIGH"

text \<open>
  The order of events as the specification words it for homing: among the samples
  \<open>lo, ..., hi - 1\<close> of the line, three consecutive samples "not pressed" and, after
  them, three consecutive samples "pressed".
\<close>

definition released_then_pressed :: "(nat \<Rightarrow> nat \<Rightarrow> level) \<Rightarrow> nat \<Rightarrow> nat \<Rightarrow> nat \<Rightarrow> bool" where
  "released_then_pressed sensor pin lo hi \<longleftrightarrow>
     (\<exists>a \<in> set [lo..<hi]. \<exists>b \<in> set [lo..<hi]. a + 3 \<le> b \<and> b + 3 \<le> hi \<and>
        (\<forall>i \<in> set [0..<3]. \<not> pressed (sensor pin (a + i))) \<and>
        (\<forall>i \<in> set [0..<3]. pressed (sensor pin (b + i))))"

text \<open>
  The number of half-steps from position \<open>pos\<close> forward to position \<open>target\<close> on a
  wheel of \<open>STEPS_PER_REV\<close> positions that only turns forward.
\<close>

definition forward_distance :: "uint \<Rightarrow> uint \<Rightarrow> nat" where
  "forward_distance pos target =
     (unat target + unat STEPS_PER_REV - unat pos) mod unat STEPS_PER_REV"

text \<open>A state in which the hours wheel stands at position 100.\<close>

definition behind_state :: state where
  "behind_state = init_state\<lparr>stepper_pos := [100, 0, 0]\<rparr>"

text \<open>
  A move to a position followed by switching the coils off, as \<open>step_to_digit\<close>
  ends (line 204).
\<close>

definition moved_to :: "(nat \<Rightarrow> nat \<Rightarrow> level) \<Rightarrow> nat \<Rightarrow> uint \<Rightarrow> state \<Rightarrow> state outcome" where
  "moved_to sensor n target s =
     (case step_to_position sensor n target s of
        Halted h \<Rightarrow> Halted h
      | Returned s' \<Rightarrow> Returned (disable_stepper n s'))"


text \<open>
  One round of the clearing loop (lines 260-267), entered after the loop test has
  read the shared line low: the tens wheel is nudged, the line is sampled, and the
  ones wheel is nudged if that sample is low too.
\<close>

definition clear_round :: "(nat \<Rightarrow> nat \<Rightarrow> level) \<Rightarrow> state \<Rightarrow> state" where
  "clear_round sensor s =
     (let s1 = disable_stepper 1 (step_num 1 200 (snd (digitalRead sensor (endstop_pins ! 1) s)));
          r2 = digitalRead sensor (endstop_pins ! 1) s1
      in if fst r2 = LOW then disable_stepper 2 (step_num 2 200 (snd r2)) else snd r2)"

text \<open>
  The half-steps of \<open>k\<close> rounds of the clearing loop when the first round's loop test
  is sample \<open>i\<close>: each round takes 200 half-steps of wheel 1 and then, if the sample
  after them reads low, 200 half-steps of wheel 2.
\<close>

fun nudges :: "(nat \<Rightarrow> nat \<Rightarrow> level) \<Rightarrow> nat \<Rightarrow> nat \<Rightarrow> nat list" where
  "nudges sensor i 0 = []"
| "nudges sensor i (Suc k) =
     replicate 200 1 @
     (if sensor (endstop_pins ! 1) (i + 1) = LOW then replicate 200 2 else []) @
     nudges sensor (i + 2) k"

text \<open>A shared line that reads released after the first nudge and pressed again after it.\<close>

definition flicker :: "nat \<Rightarrow> nat \<Rightarrow> level" where
  "flicker pin i = (if i = 0 \<or> i = 2 then LOW else HIGH)"







section \<open>Auxiliary facts\<close>

lemma wheel_cases: "n < 3 \<Longrightarrow> n = 0 \<or> n = 1 \<or> n = (2::nat)"
  by arith

lemma byte_of_small: "k < 256 \<Longrightarrow> unat (of_nat k :: byte) = k"
  by (simp add: unat_of_nat)

declare step_loop.simps [simp del]
declare seek.simps [simp del]
declare clear_loop.simps [simp del]

subsection \<open>What each primitive changes\<close>

lemma digitalWrite_fields [simp]:
  "stepper_pos (digitalWrite p v s) = stepper_pos s"
  "drive_step (digitalWrite p v s) = drive_step s"
  "year_old (digitalWrite p v s) = year_old s"
  "dst_start (digitalWrite p v s) = dst_start s"
  "dst_end (digitalWrite p v s) = dst_end s"
  "trace (digitalWrite p v s) = trace s"
  "reads (digitalWrite p v s) = reads s"
  "pins (digitalWrite p v s) = (pins s)(p := v)"
  by (simp_all add: digitalWrite_def)

lemma digitalRead_fields [simp]:
  "fst (digitalRead sensor p s) = sensor p (reads s)"
  "stepper_pos (snd (digitalRead sensor p s)) = stepper_pos s"
  "drive_step (snd (digitalRead sensor p s)) = drive_step s"
  "year_old (snd (digitalRead sensor p s)) = year_old s"
  "dst_start (snd (digitalRead sensor p s)) = dst_start s"
  "dst_end (snd (digitalRead sensor p s)) = dst_end s"
  "trace (snd (digitalRead sensor p s)) = trace s"
  "reads (snd (digitalRead sensor p s)) = reads s + 1"
  "pins (snd (digitalRead sensor p s)) = pins s"
  by (simp_all add: digitalRead_def)

lemma disable_stepper_fields [simp]:
  "stepper_pos (disable_stepper n s) = stepper_pos s"
  "drive_step (disable_stepper n s) = drive_step s"
  "year_old (disable_stepper n s) = year_old s"
  "dst_start (disable_stepper n s) = dst_start s"
  "dst_end (disable_stepper n s) = dst_end s"
  "trace (disable_stepper n s) = trace s"
  "reads (disable_stepper n s) = reads s"
  by (simp_all add: disable_stepper_def)

lemma disable_stepper_pins:
  "j < 4 \<Longrightarrow> pins (disable_stepper n s) (stepper_pins ! n ! j) = LOW"
proof -
  assume "j < 4"
  then have "j = 0 \<or> j = 1 \<or> j = 2 \<or> j = 3" by arith
  then show ?thesis by (auto simp: disable_stepper_def)
qed

lemma half_step_fields [simp]:
  "stepper_pos (half_step n s) = stepper_pos s"
  "drive_step (half_step n s) = (drive_step s)[n := of_nat ((unat (drive_step s ! n) + 1) mod 8)]"
  "year_old (half_step n s) = year_old s"
  "dst_start (half_step n s) = dst_start s"
  "dst_end (half_step n s) = dst_end s"
  "trace (half_step n s) = trace s @ [n]"
  "reads (half_step n s) = reads s"
  by (simp_all add: half_step_def Let_def)

lemma phase_bound: "(of_nat (k mod 8) :: byte) < 8"
proof -
  have "k mod 8 < 8" by simp
  then have "unat (of_nat (k mod 8) :: byte) = k mod 8"
    by (intro byte_of_small) linarith
  then show ?thesis by (simp add: word_less_nat_alt)
qed

lemma list_all_update: "list_all P xs \<Longrightarrow> P v \<Longrightarrow> list_all P (xs[i := v])"
  by (induction xs arbitrary: i) (auto split: nat.splits)

lemma wheels_ok_half_step: "wheels_ok s \<Longrightarrow> wheels_ok (half_step n s)"
  by (simp add: wheels_ok_def list_all_update phase_bound)

lemma wheels_ok_disable_stepper [simp]: "wheels_ok (disable_stepper n s) = wheels_ok s"
  by (simp add: wheels_ok_def)

lemma wheels_ok_digitalRead [simp]: "wheels_ok (snd (digitalRead sensor p s)) = wheels_ok s"
  by (simp add: wheels_ok_def)

lemma step_loop_fields:
  "stepper_pos (step_loop n k s) = stepper_pos s \<and>
   year_old (step_loop n k s) = year_old s \<and>
   dst_start (step_loop n k s) = dst_start s \<and>
   dst_end (step_loop n k s) = dst_end s \<and>
   reads (step_loop n k s) = reads s \<and>
   trace (step_loop n k s) = trace s @ replicate (unat k) n \<and>
   length (drive_step (step_loop n k s)) = length (drive_step s)"
proof (induction n k s rule: step_loop.induct)
  case (1 n steps s)
  show ?case
  proof (cases "0 < steps")
    case True
    then have "unat steps \<noteq> 0" by (simp add: word_gt_0 unat_eq_zero)
    then have u: "unat steps = Suc (unat (steps - 1))"
      using True by (simp add: unat_minus_one word_gt_0)
    have "replicate (unat steps) n = n # replicate (unat (steps - 1)) n"
      by (subst u) simp
    with 1 [OF True] True show ?thesis
      by (subst (1 2 3 4 5 6 7) step_loop.simps) simp
  next
    case False
    then have "steps = 0" by (simp add: word_gt_0)
    then show ?thesis by (simp add: step_loop.simps)
  qed
qed

lemma step_loop_zero [simp]: "step_loop n 0 s = s"
  by (simp add: step_loop.simps)

lemma wheels_ok_step_loop: "wheels_ok s \<Longrightarrow> wheels_ok (step_loop n k s)"
proof (induction n k s rule: step_loop.induct)
  case (1 n steps s)
  then show ?case
    by (subst step_loop.simps) (simp add: wheels_ok_half_step)
qed

subsection \<open>The seeking loop\<close>

lemma step_num_fields [simp]:
  "stepper_pos (step_num n k s) = (stepper_pos s)[n := (stepper_pos s ! n + k) mod STEPS_PER_REV]"
  "year_old (step_num n k s) = year_old s"
  "dst_start (step_num n k s) = dst_start s"
  "dst_end (step_num n k s) = dst_end s"
  "reads (step_num n k s) = reads s"
  "trace (step_num n k s) = trace s @ replicate (unat k) n"
  by (simp_all add: step_num_def step_loop_fields)

lemma mod_rev_less: "(x :: uint) mod STEPS_PER_REV < STEPS_PER_REV"
  by (simp add: STEPS_PER_REV_def word_mod_less_divisor)

lemma wheels_ok_step_num: "wheels_ok s \<Longrightarrow> wheels_ok (step_num n k s)"
  unfolding step_num_def
  by (rule wheels_ok_step_loop) (simp add: wheels_ok_def list_all_update mod_rev_less)

lemma seek_done:
  "\<not> rep < ENDSTOP_DEBOUNCE_READS \<Longrightarrow> seek want sensor n tot rep s = Returned (tot, s)"
  by (simp add: seek.simps)

lemma seek_step:
  "rep < ENDSTOP_DEBOUNCE_READS \<Longrightarrow>
   seek want sensor n tot rep s =
     (if STEPS_PER_REV * 2 < tot + 1
      then Halted (disable_stepper n (half_step n (snd (digitalRead sensor (endstop_pins ! n) s))))
      else seek want sensor n (tot + 1)
             (if sensor (endstop_pins ! n) (reads s) = want then rep + 1 else 0)
             (half_step n (snd (digitalRead sensor (endstop_pins ! n) s))))"
  by (subst seek.simps) (simp add: Let_def)

lemma unat_succ_small:
  "\<not> STEPS_PER_REV * 2 < tot + 1 \<Longrightarrow> unat tot \<le> 8192 \<Longrightarrow> unat (tot + 1) = unat tot + 1"
  by (simp add: unat_word_ariths)

lemma unat_succ_halt:
  "STEPS_PER_REV * 2 < tot + 1 \<Longrightarrow> unat tot \<le> 8192 \<Longrightarrow> unat tot = 8192"
  by (simp add: unat_word_ariths STEPS_PER_REV_def word_less_nat_alt)

lemma unat_not_halt: "\<not> STEPS_PER_REV * 2 < (t :: uint) \<Longrightarrow> unat t \<le> 8192"
  by (simp add: STEPS_PER_REV_def word_less_nat_alt)

lemma rep_succ: "rep < ENDSTOP_DEBOUNCE_READS \<Longrightarrow> unat (rep + 1) = unat rep + 1"
  by (simp add: ENDSTOP_DEBOUNCE_READS_def word_less_nat_alt unat_word_ariths)

lemma rep_done: "\<not> rep < ENDSTOP_DEBOUNCE_READS \<Longrightarrow> 3 \<le> unat rep"
  by (simp add: ENDSTOP_DEBOUNCE_READS_def word_less_nat_alt)

lemma seek_Returned:
  assumes "seek want sensor n tot rep s = Returned (tot', s')"
  shows "\<exists>j. reads s' = reads s + j \<and> trace s' = trace s @ replicate j n \<and>
             stepper_pos s' = stepper_pos s \<and>
             3 \<le> j + unat rep \<and>
             (\<forall>i<j. j - i \<le> 3 \<longrightarrow> sensor (endstop_pins ! n) (reads s + i) = want) \<and>
             (0 < j \<longrightarrow> unat tot' \<le> 8192) \<and>
             (unat tot \<le> 8192 \<longrightarrow> unat tot' = unat tot + j)"
  using assms
proof (induction want sensor n tot rep s arbitrary: tot' s' rule: seek.induct)
  case (1 want sensor n tot rep s)
  show ?case
  proof (cases "rep < ENDSTOP_DEBOUNCE_READS")
    case False
    with "1.prems" have "tot' = tot" "s' = s" by (simp_all add: seek_done)
    with rep_done [OF False] show ?thesis by (intro exI [of _ 0]) simp
  next
    case True
    define v where "v = fst (digitalRead sensor (endstop_pins ! n) s)"
    define rep1 where "rep1 = (if v = want then rep + 1 else 0)"
    define s1 where "s1 = half_step n (snd (digitalRead sensor (endstop_pins ! n) s))"
    define tot1 where "tot1 = tot + 1"
    from "1.prems" True have nh: "\<not> STEPS_PER_REV * 2 < tot1"
      and call: "seek want sensor n tot1 rep1 s1 = Returned (tot', s')"
      by (auto simp: seek_step v_def rep1_def s1_def tot1_def split: if_splits)
    have "\<exists>j. reads s' = reads s1 + j \<and> trace s' = trace s1 @ replicate j n \<and>
             stepper_pos s' = stepper_pos s1 \<and>
             3 \<le> j + unat rep1 \<and>
             (\<forall>i<j. j - i \<le> 3 \<longrightarrow> sensor (endstop_pins ! n) (reads s1 + i) = want) \<and>
             (0 < j \<longrightarrow> unat tot' \<le> 8192) \<and>
             (unat tot1 \<le> 8192 \<longrightarrow> unat tot' = unat tot1 + j)"
      using nh call unfolding tot1_def rep1_def s1_def v_def
      by (intro "1.IH" [OF True refl refl refl refl])
    then obtain j where j:
      "reads s' = reads s1 + j" "trace s' = trace s1 @ replicate j n"
      "stepper_pos s' = stepper_pos s1" "3 \<le> j + unat rep1"
      "\<forall>i<j. j - i \<le> 3 \<longrightarrow> sensor (endstop_pins ! n) (reads s1 + i) = want"
      "0 < j \<longrightarrow> unat tot' \<le> 8192" "unat tot1 \<le> 8192 \<longrightarrow> unat tot' = unat tot1 + j"
      by blast
    have r1: "reads s1 = reads s + 1" and t1: "trace s1 = trace s @ [n]"
      and p1: "stepper_pos s1 = stepper_pos s"
      by (simp_all add: s1_def)
    have rep1: "unat rep1 \<le> unat rep + 1" "v \<noteq> want \<longrightarrow> unat rep1 = 0"
      using True by (auto simp: rep1_def rep_succ)
    have tb: "unat tot1 \<le> 8192" using nh by (rule unat_not_halt)
    have a: "reads s' = reads s + Suc j" using j(1) r1 by simp
    have b: "trace s' = trace s @ replicate (Suc j) n"
      using j(2) t1 by (simp add: replicate_app_Cons_same)
    have c: "3 \<le> Suc j + unat rep" using j(4) rep1(1) by linarith
    have d: "sensor (endstop_pins ! n) (reads s + i) = want" if "i < Suc j" "Suc j - i \<le> 3" for i
    proof (cases i)
      case 0
      with that have "j \<le> 2" by simp
      with j(4) have "unat rep1 \<noteq> 0" by linarith
      with rep1(2) have "v = want" by blast
      with 0 show ?thesis by (simp add: v_def)
    next
      case (Suc i')
      with that have "i' < j" "j - i' \<le> 3" by simp_all
      with j(5) have "sensor (endstop_pins ! n) (reads s1 + i') = want" by blast
      with Suc r1 show ?thesis by simp
    qed
    have e: "unat tot' \<le> 8192" using j(6,7) tb by (cases j) auto
    have f: "unat tot \<le> 8192 \<longrightarrow> unat tot' = unat tot + Suc j"
      using j(7) tb unat_succ_small [OF nh [unfolded tot1_def]] by (simp add: tot1_def)
    show ?thesis
      using a b c d e f j(3) p1 by (intro exI [of _ "Suc j"]) simp
  qed
qed

lemma seek_Halted:
  assumes "seek want sensor n tot rep s = Halted h"
  shows "\<exists>j. reads h = reads s + j \<and> trace h = trace s @ replicate j n \<and>
             stepper_pos h = stepper_pos s \<and>
             (\<forall>k<4. pins h (stepper_pins ! n ! k) = LOW) \<and>
             (unat tot \<le> 8192 \<longrightarrow> unat tot + j = 8193)"
  using assms
proof (induction want sensor n tot rep s arbitrary: h rule: seek.induct)
  case (1 want sensor n tot rep s)
  show ?case
  proof (cases "rep < ENDSTOP_DEBOUNCE_READS")
    case False
    with "1.prems" show ?thesis by (simp add: seek_done)
  next
    case True
    define v where "v = fst (digitalRead sensor (endstop_pins ! n) s)"
    define rep1 where "rep1 = (if v = want then rep + 1 else 0)"
    define s1 where "s1 = half_step n (snd (digitalRead sensor (endstop_pins ! n) s))"
    define tot1 where "tot1 = tot + 1"
    have r1: "reads s1 = reads s + 1" and t1: "trace s1 = trace s @ [n]"
      and p1: "stepper_pos s1 = stepper_pos s"
      by (simp_all add: s1_def)
    show ?thesis
    proof (cases "STEPS_PER_REV * 2 < tot1")
      case halt: True
      with "1.prems" True have h: "h = disable_stepper n s1"
        by (simp add: seek_step s1_def tot1_def)
      have "unat tot \<le> 8192 \<longrightarrow> unat tot + 1 = 8193"
        using unat_succ_halt [OF halt [unfolded tot1_def]] by simp
      then show ?thesis
        using r1 t1 p1 by (intro exI [of _ 1]) (simp add: h disable_stepper_pins)
    next
      case nh: False
      with "1.prems" True have call: "seek want sensor n tot1 rep1 s1 = Halted h"
        by (simp add: seek_step v_def rep1_def s1_def tot1_def)
      have "\<exists>j. reads h = reads s1 + j \<and> trace h = trace s1 @ replicate j n \<and>
             stepper_pos h = stepper_pos s1 \<and>
             (\<forall>k<4. pins h (stepper_pins ! n ! k) = LOW) \<and>
             (unat tot1 \<le> 8192 \<longrightarrow> unat tot1 + j = 8193)"
        using nh call unfolding tot1_def rep1_def s1_def v_def
        by (intro "1.IH" [OF True refl refl refl refl])
      then obtain j where j:
        "reads h = reads s1 + j" "trace h = trace s1 @ replicate j n"
        "stepper_pos h = stepper_pos s1" "\<forall>k<4. pins h (stepper_pins ! n ! k) = LOW"
        "unat tot1 \<le> 8192 \<longrightarrow> unat tot1 + j = 8193"
        by blast
      have tb: "unat tot1 \<le> 8192" using nh by (rule unat_not_halt)
      have f: "unat tot \<le> 8192 \<longrightarrow> unat tot + Suc j = 8193"
        using j(5) tb unat_succ_small [OF nh [unfolded tot1_def]] by (auto simp: tot1_def)
      show ?thesis
        using j(1,2,3,4) f r1 t1 p1
        by (intro exI [of _ "Suc j"]) (simp add: replicate_app_Cons_same)
    qed
  qed
qed

lemma seek_wheels_ok:
  assumes "wheels_ok s"
  shows "case seek want sensor n tot rep s of Halted h \<Rightarrow> wheels_ok h
         | Returned r \<Rightarrow> wheels_ok (snd r)"
  using assms
proof (induction want sensor n tot rep s rule: seek.induct)
  case (1 want sensor n tot rep s)
  show ?case
  proof (cases "rep < ENDSTOP_DEBOUNCE_READS")
    case False
    with "1.prems" show ?thesis by (simp add: seek_done)
  next
    case True
    have ok1: "wheels_ok (half_step n (snd (digitalRead sensor (endstop_pins ! n) s)))"
      using "1.prems" by (simp add: wheels_ok_half_step)
    show ?thesis
    proof (cases "STEPS_PER_REV * 2 < tot + 1")
      case halt: True
      with True ok1 show ?thesis by (simp add: seek_step)
    next
      case nh: False
      have "case seek want sensor n (tot + 1)
                  (if fst (digitalRead sensor (endstop_pins ! n) s) = want then rep + 1 else 0)
                  (half_step n (snd (digitalRead sensor (endstop_pins ! n) s))) of
              Halted h \<Rightarrow> wheels_ok h | Returned r \<Rightarrow> wheels_ok (snd r)"
        using nh ok1 by (intro "1.IH" [OF True refl refl refl refl]) simp_all
      with True nh show ?thesis by (simp add: seek_step)
    qed
  qed
qed

lemma seek_never:
  assumes "\<forall>i\<ge>reads s. sensor (endstop_pins ! n) i \<noteq> want"
  shows "\<exists>h. seek want sensor n tot 0 s = Halted h"
proof -
  have "rep = 0 \<Longrightarrow> \<forall>i\<ge>reads s. sensor (endstop_pins ! n) i \<noteq> want \<Longrightarrow>
        \<exists>h. seek want sensor n tot rep s = Halted h" for rep
  proof (induction want sensor n tot rep s rule: seek.induct)
    case (1 want sensor n tot rep s)
    have lt: "rep < ENDSTOP_DEBOUNCE_READS"
      using "1.prems"(1) by (simp add: ENDSTOP_DEBOUNCE_READS_def)
    have miss: "sensor (endstop_pins ! n) (reads s) \<noteq> want" using "1.prems"(2) by simp
    show ?case
    proof (cases "STEPS_PER_REV * 2 < tot + 1")
      case True
      with lt show ?thesis by (simp add: seek_step)
    next
      case nh: False
      have "\<exists>h. seek want sensor n (tot + 1)
                  (if fst (digitalRead sensor (endstop_pins ! n) s) = want then rep + 1 else 0)
                  (half_step n (snd (digitalRead sensor (endstop_pins ! n) s))) = Halted h"
        using nh miss "1.prems"(2)
        by (intro "1.IH" [OF lt refl refl refl refl]) simp_all
      with lt nh miss show ?thesis by (simp add: seek_step)
    qed
  qed
  with assms show ?thesis by blast
qed

subsection \<open>Homing\<close>

lemma step_to_home_Returned:
  assumes "step_to_home sensor n s = Returned s'"
  shows "\<exists>a b. 3 \<le> a \<and> 3 \<le> b \<and> a + b \<le> 8192 \<and>
           reads s' = reads s + a + b \<and>
           trace s' = trace s @ replicate (a + b) n \<and>
           stepper_pos s' = (stepper_pos s)[n := 0] \<and>
           (\<forall>i<3. sensor (endstop_pins ! n) (reads s + a - 3 + i) = LOW) \<and>
           (\<forall>i<3. sensor (endstop_pins ! n) (reads s + a + b - 3 + i) = HIGH)"
proof -
  from assms obtain t1 s1 t2 s2 where
    one: "seek LOW sensor n 0 0 s = Returned (t1, s1)" and
    two: "seek HIGH sensor n t1 0 s1 = Returned (t2, s2)" and
    s': "s' = s2\<lparr>stepper_pos := (stepper_pos s2)[n := 0]\<rparr>"
    by (auto simp: step_to_home_def split: outcome.splits)
  from seek_Returned [OF one] obtain a where a:
    "reads s1 = reads s + a" "trace s1 = trace s @ replicate a n"
    "stepper_pos s1 = stepper_pos s" "3 \<le> a"
    "\<forall>i<a. a - i \<le> 3 \<longrightarrow> sensor (endstop_pins ! n) (reads s + i) = LOW"
    "unat t1 = a" "unat t1 \<le> 8192"
    by auto
  from seek_Returned [OF two] obtain b where b:
    "reads s2 = reads s1 + b" "trace s2 = trace s1 @ replicate b n"
    "stepper_pos s2 = stepper_pos s1" "3 \<le> b"
    "\<forall>i<b. b - i \<le> 3 \<longrightarrow> sensor (endstop_pins ! n) (reads s1 + i) = HIGH"
    "unat t2 \<le> 8192" "unat t2 = unat t1 + b"
    using a(7) by auto
  have lo: "sensor (endstop_pins ! n) (reads s + a - 3 + i) = LOW" if "i < 3" for i
  proof -
    have "a - 3 + i < a" "a - (a - 3 + i) \<le> 3" using that a(4) by linarith+
    with a(5) have "sensor (endstop_pins ! n) (reads s + (a - 3 + i)) = LOW" by blast
    moreover have "reads s + (a - 3 + i) = reads s + a - 3 + i" using a(4) by linarith
    ultimately show ?thesis by simp
  qed
  have hi: "sensor (endstop_pins ! n) (reads s + a + b - 3 + i) = HIGH" if "i < 3" for i
  proof -
    have "b - 3 + i < b" "b - (b - 3 + i) \<le> 3" using that b(4) by linarith+
    with b(5) have "sensor (endstop_pins ! n) (reads s1 + (b - 3 + i)) = HIGH" by blast
    moreover have "reads s1 + (b - 3 + i) = reads s + a + b - 3 + i"
      using b(4) a(1) by linarith
    ultimately show ?thesis by simp
  qed
  have "a + b \<le> 8192" using a(6) b(6,7) by linarith
  moreover have "reads s' = reads s + a + b" using a(1) b(1) by (simp add: s')
  moreover have "trace s' = trace s @ replicate (a + b) n"
    using a(2) b(2) by (simp add: s' replicate_add)
  moreover have "stepper_pos s' = (stepper_pos s)[n := 0]" using a(3) b(3) by (simp add: s')
  ultimately show ?thesis using a(4) b(4) lo hi by blast
qed

lemma step_to_home_Halted:
  assumes "step_to_home sensor n s = Halted h"
  shows "reads h = reads s + 8193 \<and> trace h = trace s @ replicate 8193 n \<and>
         stepper_pos h = stepper_pos s \<and> (\<forall>k<4. pins h (stepper_pins ! n ! k) = LOW)"
proof (cases "seek LOW sensor n 0 0 s")
  case (Halted h1)
  with assms have "h1 = h" by (simp add: step_to_home_def)
  with seek_Halted [OF Halted] show ?thesis by auto
next
  case (Returned r)
  obtain t1 s1 where r: "r = (t1, s1)" by (cases r)
  with Returned have one: "seek LOW sensor n 0 0 s = Returned (t1, s1)" by simp
  with assms have two: "seek HIGH sensor n t1 0 s1 = Halted h"
    by (auto simp: step_to_home_def split: outcome.splits)
  from seek_Returned [OF one] obtain a where a:
    "reads s1 = reads s + a" "trace s1 = trace s @ replicate a n"
    "stepper_pos s1 = stepper_pos s" "unat t1 = a" "unat t1 \<le> 8192"
    by auto
  from seek_Halted [OF two] obtain b where b:
    "reads h = reads s1 + b" "trace h = trace s1 @ replicate b n"
    "stepper_pos h = stepper_pos s1" "\<forall>k<4. pins h (stepper_pins ! n ! k) = LOW"
    "unat t1 + b = 8193"
    using a(5) by auto
  have "a + b = 8193" using a(4) b(5) by simp
  then have "replicate a n @ replicate b n = replicate 8193 n"
    by (simp add: replicate_add [symmetric])
  with a b \<open>a + b = 8193\<close> show ?thesis by simp
qed

lemma step_to_home_wheels_ok:
  assumes "wheels_ok s"
  shows "case step_to_home sensor n s of Halted h \<Rightarrow> wheels_ok h | Returned s' \<Rightarrow> wheels_ok s'"
proof (cases "seek LOW sensor n 0 0 s")
  case (Halted h1)
  with seek_wheels_ok [OF assms, of LOW sensor n 0 0] show ?thesis
    by (simp add: step_to_home_def)
next
  case (Returned r)
  obtain t1 s1 where r: "r = (t1, s1)" by (cases r)
  with Returned seek_wheels_ok [OF assms, of LOW sensor n 0 0] have ok1: "wheels_ok s1" by simp
  have z: "wheels_ok (s2\<lparr>stepper_pos := (stepper_pos s2)[n := 0]\<rparr>)" if "wheels_ok s2" for s2
    using that by (simp add: wheels_ok_def list_all_update STEPS_PER_REV_def)
  show ?thesis
    using seek_wheels_ok [OF ok1, of HIGH sensor n t1 0] Returned r z
    by (auto simp: step_to_home_def split: outcome.splits)
qed

lemma step_to_home_never_pressed:
  assumes "\<forall>i. sensor (endstop_pins ! n) i = HIGH"
  shows "\<exists>h. step_to_home sensor n s = Halted h"
proof -
  have "\<forall>i\<ge>reads s. sensor (endstop_pins ! n) i \<noteq> LOW" using assms by simp
  from seek_never [of s sensor n LOW 0, OF this]
  obtain h where "seek LOW sensor n 0 0 s = Halted h" by blast
  then show ?thesis by (simp add: step_to_home_def)
qed

lemma no_halt_yet:
  assumes "unat tot + 1 \<le> 8192"
  shows "\<not> STEPS_PER_REV * 2 < tot + 1" and "unat (tot + 1) = unat tot + 1"
proof -
  show u: "unat (tot + 1) = unat tot + 1" using assms by (simp add: unat_word_ariths)
  show "\<not> STEPS_PER_REV * 2 < tot + 1"
    using assms by (simp add: STEPS_PER_REV_def word_less_nat_alt u)
qed

lemma seek_hit3:
  assumes "sensor (endstop_pins ! n) (reads s) = want"
      and "sensor (endstop_pins ! n) (reads s + 1) = want"
      and "sensor (endstop_pins ! n) (reads s + 2) = want"
      and "unat tot + 3 \<le> 8192"
  shows "\<exists>s'. seek want sensor n tot 0 s = Returned (tot + 3, s')"
proof -
  have "unat tot + 1 \<le> 8192" using assms(4) by linarith
  then have a: "\<not> STEPS_PER_REV * 2 < tot + 1" "unat (tot + 1) = unat tot + 1"
    by (rule no_halt_yet)+
  have "unat (tot + 1) + 1 \<le> 8192" using assms(4) a(2) by linarith
  then have b: "\<not> STEPS_PER_REV * 2 < tot + 1 + 1" "unat (tot + 1 + 1) = unat (tot + 1) + 1"
    by (rule no_halt_yet)+
  have "unat (tot + 1 + 1) + 1 \<le> 8192" using assms(4) a(2) b(2) by linarith
  then have c: "\<not> STEPS_PER_REV * 2 < tot + 1 + 1 + 1"
    by (rule no_halt_yet)
  have r: "(0::byte) < ENDSTOP_DEBOUNCE_READS" "(0::byte) + 1 < ENDSTOP_DEBOUNCE_READS"
    "(0::byte) + 1 + 1 < ENDSTOP_DEBOUNCE_READS" "\<not> (0::byte) + 1 + 1 + 1 < ENDSTOP_DEBOUNCE_READS"
    by (simp_all add: ENDSTOP_DEBOUNCE_READS_def)
  define s1 where "s1 = half_step n (snd (digitalRead sensor (endstop_pins ! n) s))"
  define s2 where "s2 = half_step n (snd (digitalRead sensor (endstop_pins ! n) s1))"
  define s3 where "s3 = half_step n (snd (digitalRead sensor (endstop_pins ! n) s2))"
  have rd: "reads s1 = reads s + 1" "reads s2 = reads s + 2"
    by (simp_all add: s1_def s2_def)
  have "seek want sensor n tot 0 s = seek want sensor n (tot + 1) (0 + 1) s1"
    using assms(1) a(1) r(1) by (subst seek_step) (simp_all add: s1_def)
  also have "\<dots> = seek want sensor n (tot + 1 + 1) (0 + 1 + 1) s2"
    using assms(2) b(1) r(2) rd(1) by (subst seek_step) (simp_all add: s2_def)
  also have "\<dots> = seek want sensor n (tot + 1 + 1 + 1) (0 + 1 + 1 + 1) s3"
    using assms(3) c r(3) rd(2) by (subst seek_step) (simp_all add: s3_def)
  also have "\<dots> = Returned (tot + 1 + 1 + 1, s3)"
    using r(4) by (rule seek_done)
  finally show ?thesis by simp
qed

lemma seek_first:
  assumes "\<forall>i<m. sensor (endstop_pins ! n) (reads s + i) \<noteq> want"
      and "\<forall>i<3. sensor (endstop_pins ! n) (reads s + m + i) = want"
      and "unat tot + m + 3 \<le> 8192"
  shows "\<exists>s'. seek want sensor n tot 0 s = Returned (tot + of_nat (m + 3), s')"
  using assms
proof (induction m arbitrary: tot s)
  case 0
  have "sensor (endstop_pins ! n) (reads s) = want"
    "sensor (endstop_pins ! n) (reads s + 1) = want"
    "sensor (endstop_pins ! n) (reads s + 2) = want"
    using "0.prems"(2) [rule_format, of 0] "0.prems"(2) [rule_format, of 1]
      "0.prems"(2) [rule_format, of 2] by simp_all
  with seek_hit3 [of sensor n s want tot] "0.prems"(3) show ?case by simp
next
  case (Suc m)
  define s1 where "s1 = half_step n (snd (digitalRead sensor (endstop_pins ! n) s))"
  have r1: "reads s1 = reads s + 1" by (simp add: s1_def)
  have miss: "sensor (endstop_pins ! n) (reads s) \<noteq> want" using Suc.prems(1) by force
  have "unat tot + 1 \<le> 8192" using Suc.prems(3) by linarith
  then have nh: "\<not> STEPS_PER_REV * 2 < tot + 1" "unat (tot + 1) = unat tot + 1"
    by (rule no_halt_yet)+
  have step: "seek want sensor n tot 0 s = seek want sensor n (tot + 1) 0 s1"
    using miss nh(1)
    by (subst seek_step) (simp_all add: ENDSTOP_DEBOUNCE_READS_def s1_def)
  have a: "\<forall>i<m. sensor (endstop_pins ! n) (reads s1 + i) \<noteq> want"
  proof (intro allI impI)
    fix i assume "i < m"
    then have "Suc i < Suc m" by simp
    with Suc.prems(1) have "sensor (endstop_pins ! n) (reads s + Suc i) \<noteq> want" by blast
    then show "sensor (endstop_pins ! n) (reads s1 + i) \<noteq> want" by (simp add: r1)
  qed
  have b: "\<forall>i<3. sensor (endstop_pins ! n) (reads s1 + m + i) = want"
    using Suc.prems(2) by (simp add: r1)
  have c: "unat (tot + 1) + m + 3 \<le> 8192" using Suc.prems(3) nh(2) by simp
  from Suc.IH [OF a b c] obtain s' where
    "seek want sensor n (tot + 1) 0 s1 = Returned (tot + 1 + of_nat (m + 3), s')" by blast
  with step show ?case by (simp add: add.assoc)
qed

lemma stuck_first_state:
  "map_option fst (returned_value (seek LOW stuck_pressed 0 0 0 init_state)) = Some 5003"
proof -
  have a: "\<forall>i<5000. stuck_pressed (endstop_pins ! 0) (reads init_state + i) \<noteq> LOW"
    by (simp add: stuck_pressed_def init_state_def)
  have b: "\<forall>i<3. stuck_pressed (endstop_pins ! 0) (reads init_state + 5000 + i) = LOW"
    by (simp add: stuck_pressed_def init_state_def)
  have c: "unat (0::uint) + 5000 + 3 \<le> 8192" by simp
  from seek_first [of 5000 stuck_pressed 0 init_state LOW 0, OF a b c] show ?thesis by (auto simp: returned_value_def)
qed

lemma press_release_run:
  "\<exists>s'. step_to_home press_release 0 init_state = Returned s' \<and> reads s' = 6 \<and>
        trace s' = [0, 0, 0, 0, 0, 0] \<and> stepper_pos s' = [0, 0, 0]"
  by (simp add: step_to_home_def seek_step seek_done ENDSTOP_DEBOUNCE_READS_def
                STEPS_PER_REV_def press_release_def init_state_def)

subsection \<open>The position planner and the digit mapper\<close>

lemma wheels_ok_pos: "wheels_ok s \<Longrightarrow> n < 3 \<Longrightarrow> stepper_pos s ! n < STEPS_PER_REV"
  by (simp add: wheels_ok_def list_all_length)

lemma mod_rev_id: "(x :: uint) < STEPS_PER_REV \<Longrightarrow> x mod STEPS_PER_REV = x"
  by (rule mod_word_less)

lemma mod_rev_twice: "(x :: uint) mod STEPS_PER_REV mod STEPS_PER_REV = x mod STEPS_PER_REV"
  by (rule mod_word_less [OF mod_rev_less])

lemma forward_distance_ahead:
  assumes "\<not> t < p" and "t < STEPS_PER_REV"
  shows "forward_distance p t = unat (t - p)"
proof -
  have le: "unat p \<le> unat t" using assms(1) by (simp add: word_less_nat_alt)
  have lt: "unat t < 4096" using assms(2) by (simp add: word_less_nat_alt STEPS_PER_REV_def)
  have "p \<le> t" using assms(1) by (rule leI)
  then have s: "unat (t - p) = unat t - unat p" by (rule unat_sub)
  have "unat t + 4096 - unat p = 4096 + (unat t - unat p)" using le by linarith
  moreover have "unat t - unat p < 4096" using lt by linarith
  ultimately have "(unat t + 4096 - unat p) mod 4096 = unat t - unat p"
    by (simp only: mod_add_self1 mod_less)
  with s show ?thesis
    unfolding forward_distance_def STEPS_PER_REV_def by (simp only: unat_numeral) simp
qed

lemma step_to_position_same:
  "target = stepper_pos s ! n \<Longrightarrow> step_to_position sensor n target s = Returned s"
  by (simp add: step_to_position_def)

lemma step_to_position_ahead:
  assumes "target \<noteq> stepper_pos s ! n" and "\<not> target mod STEPS_PER_REV < stepper_pos s ! n"
  shows "step_to_position sensor n target s =
           Returned (step_num n (target mod STEPS_PER_REV - stepper_pos s ! n) s)"
  using assms by (simp add: step_to_position_def Let_def)

lemma step_to_position_behind:
  assumes "target \<noteq> stepper_pos s ! n" and "target mod STEPS_PER_REV < stepper_pos s ! n"
  shows "step_to_position sensor n target s =
           (case step_to_home sensor n s of
              Halted h \<Rightarrow> Halted h
            | Returned s1 \<Rightarrow> Returned (step_num n (target mod STEPS_PER_REV) s1))"
  using assms by (simp add: step_to_position_def Let_def)

lemma step_to_position_pos:
  assumes "n < length (stepper_pos s)" and "step_to_position sensor n target s = Returned s'"
    and "target \<noteq> stepper_pos s ! n"
  shows "stepper_pos s' = (stepper_pos s)[n := target mod STEPS_PER_REV]"
proof (cases "target mod STEPS_PER_REV < stepper_pos s ! n")
  case True
  with assms(2,3) obtain s1 where h: "step_to_home sensor n s = Returned s1"
    and s': "s' = step_num n (target mod STEPS_PER_REV) s1"
    by (auto simp: step_to_position_behind split: outcome.splits)
  from step_to_home_Returned [OF h] have "stepper_pos s1 = (stepper_pos s)[n := 0]" by blast
  with assms(1) show ?thesis by (simp add: s' mod_rev_twice)
next
  case False
  with assms(2,3) have "s' = step_num n (target mod STEPS_PER_REV - stepper_pos s ! n) s"
    by (simp add: step_to_position_ahead)
  then show ?thesis by (simp add: mod_rev_twice)
qed

lemma behind_run:
  "\<exists>s'. step_to_position press_release 0 50 behind_state = Returned s' \<and>
        length (trace s') = 56 \<and> stepper_pos s' = [50, 0, 0]"
  by (simp add: step_to_position_def step_to_home_def seek_step seek_done
        ENDSTOP_DEBOUNCE_READS_def STEPS_PER_REV_def press_release_def init_state_def
        behind_state_def Let_def)

lemma step_to_position_Halted:
  assumes "step_to_position sensor n target s = Halted h"
  shows "stepper_pos h = stepper_pos s \<and> (\<exists>h'. step_to_home sensor n s = Halted h')"
proof -
  from assms have "step_to_home sensor n s = Halted h"
    by (auto simp: step_to_position_def Let_def split: if_splits outcome.splits)
  with step_to_home_Halted [OF this] show ?thesis by simp
qed

lemma step_to_position_wheels_ok:
  assumes "wheels_ok s"
  shows "case step_to_position sensor n target s of
           Halted h \<Rightarrow> wheels_ok h | Returned s' \<Rightarrow> wheels_ok s'"
  using assms step_to_home_wheels_ok [OF assms, of sensor n]
  by (auto simp: step_to_position_def Let_def wheels_ok_step_num split: outcome.splits)

lemma step_to_position_frame:
  assumes "wheels_ok s" and "n < 3"
  shows "case step_to_position sensor n target s of
           Halted h \<Rightarrow> wheels_ok h \<and> stepper_pos h = stepper_pos s
         | Returned s' \<Rightarrow> wheels_ok s' \<and>
             stepper_pos s' = (stepper_pos s)[n := target mod STEPS_PER_REV]"
proof (cases "step_to_position sensor n target s")
  case (Halted h)
  with step_to_position_wheels_ok [OF assms(1), of sensor n target]
    step_to_position_Halted [OF Halted] show ?thesis by simp
next
  case (Returned s')
  have len: "n < length (stepper_pos s)" using assms by (simp add: wheels_ok_def)
  have "stepper_pos s' = (stepper_pos s)[n := target mod STEPS_PER_REV]"
  proof (cases "target = stepper_pos s ! n")
    case True
    with Returned have "s' = s" by (simp add: step_to_position_same)
    moreover have "target mod STEPS_PER_REV = stepper_pos s ! n"
      using True wheels_ok_pos [OF assms] by (simp add: mod_rev_id)
    ultimately show ?thesis by simp
  next
    case False
    from step_to_position_pos [OF len Returned False] show ?thesis .
  qed
  with step_to_position_wheels_ok [OF assms(1), of sensor n target] Returned
  show ?thesis by simp
qed

lemma step_to_digit_moved_to:
  "step_to_digit sensor n digit s =
     moved_to sensor n
       (if n = 1 \<and> target_pos n digit < stepper_pos s ! n
           \<and> stepper_pos s ! n \<le> second_target n digit
        then second_target n digit else target_pos n digit) s"
  by (simp add: step_to_digit_def moved_to_def)

lemma moved_to_frame:
  assumes "wheels_ok s" and "n < 3"
  shows "case moved_to sensor n target s of
           Halted h \<Rightarrow> wheels_ok h \<and> stepper_pos h = stepper_pos s
         | Returned s' \<Rightarrow> wheels_ok s' \<and>
             stepper_pos s' = (stepper_pos s)[n := target mod STEPS_PER_REV]"
  using step_to_position_frame [OF assms, where sensor = sensor and target = target]
  by (auto simp: moved_to_def split: outcome.splits)

lemma step_to_digit_frame:
  assumes "wheels_ok s" and "n < 3"
  shows "case step_to_digit sensor n digit s of
           Halted h \<Rightarrow> wheels_ok h \<and> stepper_pos h = stepper_pos s
         | Returned s' \<Rightarrow> wheels_ok s' \<and>
             (stepper_pos s' = (stepper_pos s)[n := target_pos n digit mod STEPS_PER_REV] \<or>
              stepper_pos s' = (stepper_pos s)[n := second_target n digit mod STEPS_PER_REV])"
proof (cases "n = 1 \<and> target_pos n digit < stepper_pos s ! n
                \<and> stepper_pos s ! n \<le> second_target n digit")
  case True
  then have "(if n = 1 \<and> target_pos n digit < stepper_pos s ! n
                 \<and> stepper_pos s ! n \<le> second_target n digit
              then second_target n digit else target_pos n digit) = second_target n digit"
    by (rule if_P)
  then have "step_to_digit sensor n digit s = moved_to sensor n (second_target n digit) s"
    by (simp only: step_to_digit_moved_to)
  with moved_to_frame [OF assms, where sensor = sensor and target = "second_target n digit"]
  show ?thesis
    by (auto split: outcome.splits)
next
  case False
  then have "(if n = 1 \<and> target_pos n digit < stepper_pos s ! n
                 \<and> stepper_pos s ! n \<le> second_target n digit
              then second_target n digit else target_pos n digit) = target_pos n digit"
    by (rule if_not_P)
  then have "step_to_digit sensor n digit s = moved_to sensor n (target_pos n digit) s"
    by (simp only: step_to_digit_moved_to)
  with moved_to_frame [OF assms, where sensor = sensor and target = "target_pos n digit"]
  show ?thesis
    by (auto split: outcome.splits)
qed

subsection \<open>The target of a digit\<close>

lemma scaled_flap:
  fixes k :: int
  assumes "0 \<le> k" and "k < 12"
  shows "uint ((word_of_int k * 4096 :: uint) div f) = (k * 4096) div uint f"
proof -
  have "k * 4096 < 65536" using assms by linarith
  moreover have "0 \<le> k * 4096" using assms by simp
  ultimately have "uint (word_of_int k * 4096 :: uint) = k * 4096"
    by (simp add: uint_word_ariths uint_word_of_int mod_mult_left_eq)
  then show ?thesis by (simp add: uint_div)
qed

lemma target_pos_uint:
  assumes "n < 3"
  shows "uint (target_pos n digit) =
           uint (starting_offset ! n) +
             (((uint (num_digits n) + uint digit - uint (starting_digits ! n))
                 mod uint (num_digits n)) * uint STEPS_PER_REV) div uint (num_flaps n)"
proof -
  define k where
    "k = (uint (num_digits n) + uint digit - uint (starting_digits ! n)) mod uint (num_digits n)"
  have nd: "0 < uint (num_digits n)" "uint (num_digits n) \<le> 12"
    by (simp_all add: num_digits_def)
  have sd: "uint (starting_digits ! n) \<le> uint (num_digits n)"
    using wheel_cases [OF assms] by (auto simp: starting_digits_def num_digits_def)
  have a: "0 \<le> uint (num_digits n) + uint digit - uint (starting_digits ! n)"
    using sd uint_ge_0 [of digit] by linarith
  have sm: "(uint (num_digits n) + uint digit - uint (starting_digits ! n))
              smod uint (num_digits n) = k"
    using a nd by (simp add: k_def smod_int_alt_def sgn_if)
  have k0: "0 \<le> k" using nd by (simp add: k_def)
  have "k < uint (num_digits n)" unfolding k_def using nd(1) by (rule pos_mod_bound)
  then have k12: "k < 12" using nd(2) by linarith
  have ufl: "uint (ucast (num_flaps n) :: uint) = uint (num_flaps n)"
    by (simp add: num_flaps_def)
  have q: "uint ((word_of_int k * 4096 :: uint) div ucast (num_flaps n))
             = (k * 4096) div uint (num_flaps n)"
    using scaled_flap [OF k0 k12, of "ucast (num_flaps n)"] ufl by simp
  have qb: "(k * 4096) div uint (num_flaps n) < 5000"
    using k0 k12 by (auto simp: num_flaps_def)
  have qb0: "0 \<le> (k * 4096) div uint (num_flaps n)"
    using k0 by (auto simp: num_flaps_def)
  have ob: "uint (starting_offset ! n) < 300"
    using wheel_cases [OF assms] by (auto simp: starting_offset_def)
  have "uint (target_pos n digit)
          = (uint (starting_offset ! n) + (k * 4096) div uint (num_flaps n)) mod 65536"
    unfolding target_pos_def sm STEPS_PER_REV_def using q by (simp add: uint_word_ariths)
  also have "\<dots> = uint (starting_offset ! n) + (k * 4096) div uint (num_flaps n)"
    using qb qb0 ob by (simp add: mod_pos_pos_trivial)
  finally show ?thesis by (simp add: k_def STEPS_PER_REV_def)
qed

lemma target_pos_hours_0: "target_pos 0 0 = 110"
  by (simp add: target_pos_def starting_offset_def num_digits_def starting_digits_def
                STEPS_PER_REV_def num_flaps_def smod_int_alt_def)

lemma target_pos_hours_5: "target_pos 0 5 = 1816"
  by (simp add: target_pos_def starting_offset_def num_digits_def starting_digits_def
                STEPS_PER_REV_def num_flaps_def smod_int_alt_def)

subsection \<open>The tens wheel's two targets\<close>









subsection \<open>The clearing loop\<close>

lemma clear_round_fields:
  "reads (clear_round sensor s) = reads s + 2"
  "trace (clear_round sensor s) =
     trace s @ replicate 200 1 @
       (if sensor (endstop_pins ! 1) (reads s + 1) = LOW then replicate 200 2 else [])"
  by (simp_all add: clear_round_def Let_def)

lemma clear_loop_released:
  "sensor (endstop_pins ! 1) (reads s) \<noteq> LOW \<Longrightarrow>
   clear_loop sensor tot s = Returned (tot, snd (digitalRead sensor (endstop_pins ! 1) s))"
  by (subst clear_loop.simps) (simp add: Let_def)

lemma clear_loop_pressed:
  "sensor (endstop_pins ! 1) (reads s) = LOW \<Longrightarrow>
   clear_loop sensor tot s =
     (if STEPS_PER_REV < tot + 200 then Halted (clear_round sensor s)
      else clear_loop sensor (tot + 200) (clear_round sensor s))"
  by (subst clear_loop.simps) (simp add: Let_def clear_round_def)

lemma unat_batch:
  assumes "\<not> STEPS_PER_REV < tot + 200" and "unat tot \<le> 4096"
  shows "unat (tot + 200) = unat tot + 200"
  using assms by (simp add: unat_word_ariths)

lemma unat_batch_halt:
  assumes "STEPS_PER_REV < tot + 200" and "unat tot \<le> 4096"
  shows "4096 < unat tot + 200"
  using assms by (simp add: unat_word_ariths STEPS_PER_REV_def word_less_nat_alt)

lemma unat_batch_le: "\<not> STEPS_PER_REV < (t :: uint) \<Longrightarrow> unat t \<le> 4096"
  by (simp add: STEPS_PER_REV_def word_less_nat_alt)

lemma clear_loop_Returned:
  assumes "clear_loop sensor tot s = Returned (tot', s')"
  shows "\<exists>k. reads s' = reads s + 2 * k + 1 \<and>
             (\<forall>r<k. sensor (endstop_pins ! 1) (reads s + 2 * r) = LOW) \<and>
             sensor (endstop_pins ! 1) (reads s + 2 * k) = HIGH \<and>
             trace s' = trace s @ nudges sensor (reads s) k \<and>
             (0 < k \<longrightarrow> unat tot' \<le> 4096) \<and>
             (unat tot \<le> 4096 \<longrightarrow> unat tot' = unat tot + 200 * k)"
  using assms
proof (induction sensor tot s arbitrary: tot' s' rule: clear_loop.induct)
  case (1 sensor tot s)
  show ?case
  proof (cases "sensor (endstop_pins ! 1) (reads s) = LOW")
    case False
    with "1.prems" have "tot' = tot" "s' = snd (digitalRead sensor (endstop_pins ! 1) s)"
      by (simp_all add: clear_loop_released)
    moreover from False have "sensor (endstop_pins ! 1) (reads s) = HIGH"
      by (cases "sensor (endstop_pins ! 1) (reads s)") simp_all
    ultimately show ?thesis by (intro exI [of _ 0]) simp
  next
    case True
    define s2 where "s2 = clear_round sensor s"
    from "1.prems" True have nh: "\<not> STEPS_PER_REV < tot + 200"
      and call: "clear_loop sensor (tot + 200) s2 = Returned (tot', s')"
      by (auto simp: clear_loop_pressed s2_def split: if_splits)
    have "\<exists>k. reads s' = reads s2 + 2 * k + 1 \<and>
             (\<forall>r<k. sensor (endstop_pins ! 1) (reads s2 + 2 * r) = LOW) \<and>
             sensor (endstop_pins ! 1) (reads s2 + 2 * k) = HIGH \<and>
             trace s' = trace s2 @ nudges sensor (reads s2) k \<and>
             (0 < k \<longrightarrow> unat tot' \<le> 4096) \<and>
             (unat (tot + 200) \<le> 4096 \<longrightarrow> unat tot' = unat (tot + 200) + 200 * k)"
      using True nh call unfolding s2_def clear_round_def Let_def
      by (intro "1.IH" [OF refl _ refl refl refl refl]) simp_all
    then obtain k where k:
      "reads s' = reads s2 + 2 * k + 1"
      "\<forall>r<k. sensor (endstop_pins ! 1) (reads s2 + 2 * r) = LOW"
      "sensor (endstop_pins ! 1) (reads s2 + 2 * k) = HIGH"
      "trace s' = trace s2 @ nudges sensor (reads s2) k"
      "0 < k \<longrightarrow> unat tot' \<le> 4096"
      "unat (tot + 200) \<le> 4096 \<longrightarrow> unat tot' = unat (tot + 200) + 200 * k"
      by blast
    have r2: "reads s2 = reads s + 2" by (simp add: s2_def clear_round_fields)
    have tb: "unat (tot + 200) \<le> 4096" using nh by (rule unat_batch_le)
    have a: "reads s' = reads s + 2 * Suc k + 1" using k(1) r2 by simp
    have b: "sensor (endstop_pins ! 1) (reads s + 2 * r) = LOW" if "r < Suc k" for r
    proof (cases r)
      case 0
      with True show ?thesis by simp
    next
      case (Suc r')
      with that k(2) have "sensor (endstop_pins ! 1) (reads s2 + 2 * r') = LOW" by simp
      with Suc r2 show ?thesis by (simp add: add.commute add.left_commute)
    qed
    have c: "sensor (endstop_pins ! 1) (reads s + 2 * Suc k) = HIGH"
      using k(3) r2 by (simp add: add.commute add.left_commute)
    have d: "trace s' = trace s @ nudges sensor (reads s) (Suc k)"
      using k(4) r2 by (simp add: s2_def clear_round_fields)
    have e: "unat tot' \<le> 4096" using k(5,6) tb by (cases k) auto
    have f: "unat tot \<le> 4096 \<longrightarrow> unat tot' = unat tot + 200 * Suc k"
      using k(6) tb unat_batch [OF nh] by auto
    show ?thesis using a b c d e f by (intro exI [of _ "Suc k"]) simp
  qed
qed

lemma clear_loop_Halted:
  assumes "clear_loop sensor tot s = Halted h"
  shows "\<exists>k. reads h = reads s + 2 * Suc k \<and>
             (\<forall>r<Suc k. sensor (endstop_pins ! 1) (reads s + 2 * r) = LOW) \<and>
             trace h = trace s @ nudges sensor (reads s) (Suc k) \<and>
             (unat tot \<le> 4096 \<longrightarrow>
                4096 < unat tot + 200 * Suc k \<and> unat tot + 200 * k \<le> 4096)"
  using assms
proof (induction sensor tot s arbitrary: h rule: clear_loop.induct)
  case (1 sensor tot s)
  show ?case
  proof (cases "sensor (endstop_pins ! 1) (reads s) = LOW")
    case False
    with "1.prems" show ?thesis by (simp add: clear_loop_released)
  next
    case True
    define s2 where "s2 = clear_round sensor s"
    have r2: "reads s2 = reads s + 2" by (simp add: s2_def clear_round_fields)
    show ?thesis
    proof (cases "STEPS_PER_REV < tot + 200")
      case halt: True
      with "1.prems" True have h: "h = s2" by (simp add: clear_loop_pressed s2_def)
      have "unat tot \<le> 4096 \<longrightarrow> 4096 < unat tot + 200 * Suc 0 \<and> unat tot + 200 * 0 \<le> 4096"
        using unat_batch_halt [OF halt] by simp
      then show ?thesis
        using True by (intro exI [of _ 0]) (simp add: h s2_def clear_round_fields)
    next
      case nh: False
      with "1.prems" True have call: "clear_loop sensor (tot + 200) s2 = Halted h"
        by (simp add: clear_loop_pressed s2_def)
      have "\<exists>k. reads h = reads s2 + 2 * Suc k \<and>
             (\<forall>r<Suc k. sensor (endstop_pins ! 1) (reads s2 + 2 * r) = LOW) \<and>
             trace h = trace s2 @ nudges sensor (reads s2) (Suc k) \<and>
             (unat (tot + 200) \<le> 4096 \<longrightarrow>
                4096 < unat (tot + 200) + 200 * Suc k \<and> unat (tot + 200) + 200 * k \<le> 4096)"
        using True nh call unfolding s2_def clear_round_def Let_def
        by (intro "1.IH" [OF refl _ refl refl refl refl]) simp_all
      then obtain k where k:
        "reads h = reads s2 + 2 * Suc k"
        "\<forall>r<Suc k. sensor (endstop_pins ! 1) (reads s2 + 2 * r) = LOW"
        "trace h = trace s2 @ nudges sensor (reads s2) (Suc k)"
        "unat (tot + 200) \<le> 4096 \<longrightarrow>
           4096 < unat (tot + 200) + 200 * Suc k \<and> unat (tot + 200) + 200 * k \<le> 4096"
        by blast
      have tb: "unat (tot + 200) \<le> 4096" using nh by (rule unat_batch_le)
      have a: "reads h = reads s + 2 * Suc (Suc k)" using k(1) r2 by simp
      have b: "sensor (endstop_pins ! 1) (reads s + 2 * r) = LOW" if "r < Suc (Suc k)" for r
      proof (cases r)
        case 0
        with True show ?thesis by simp
      next
        case (Suc r')
        with that k(2) have "sensor (endstop_pins ! 1) (reads s2 + 2 * r') = LOW" by simp
        with Suc r2 show ?thesis by (simp add: add.commute add.left_commute)
      qed
      have d: "trace h = trace s @ nudges sensor (reads s) (Suc (Suc k))"
        using k(3) r2 by (simp add: s2_def clear_round_fields)
      have f: "unat tot \<le> 4096 \<longrightarrow>
                4096 < unat tot + 200 * Suc (Suc k) \<and> unat tot + 200 * Suc k \<le> 4096"
        using k(4) tb unat_batch [OF nh] by auto
      show ?thesis using a b d f by (intro exI [of _ "Suc k"]) simp
    qed
  qed
qed

lemma flicker_run:
  "\<exists>s'. clear_shared_endstop flicker init_state = Returned (400, s') \<and> reads s' = 5 \<and>
        trace s' = replicate 200 1 @ replicate 200 1"
proof -
  define s1 where "s1 = clear_round flicker init_state"
  define s2 where "s2 = clear_round flicker s1"
  have r0: "reads init_state = 0" by (simp add: init_state_def)
  have r1: "reads s1 = 2" by (simp add: s1_def clear_round_fields r0)
  have r2: "reads s2 = 4" by (simp add: s2_def clear_round_fields r1)
  have t1: "trace s1 = replicate 200 1"
    by (simp add: s1_def clear_round_fields r0 flicker_def init_state_def)
  have t2: "trace s2 = replicate 200 1 @ replicate 200 1"
    by (simp add: s2_def clear_round_fields r1 t1 flicker_def)
  have "clear_loop flicker 0 init_state = clear_loop flicker (0 + 200) s1"
    by (subst clear_loop_pressed) (simp_all add: r0 flicker_def s1_def STEPS_PER_REV_def)
  also have "\<dots> = clear_loop flicker (0 + 200 + 200) s2"
    by (subst clear_loop_pressed) (simp_all add: r1 flicker_def s2_def STEPS_PER_REV_def)
  also have "\<dots> = Returned (0 + 200 + 200, snd (digitalRead flicker (endstop_pins ! 1) s2))"
    by (rule clear_loop_released) (simp add: r2 flicker_def)
  finally have "clear_shared_endstop flicker init_state
      = Returned (400, snd (digitalRead flicker (endstop_pins ! 1) s2))"
    by (simp add: clear_shared_endstop_def endstop_pins_def)
  then show ?thesis using r2 t2 by simp
qed

subsection \<open>The daylight-saving cutoffs\<close>





















section \<open>Digit mapper: the target formula\<close>

text \<open>
  C3, as stated, fails. For the hours wheel (12 flaps, 12 digits, starting digit 0,
  offset 110) and digit 5, line 185 yields 1816, while the formula with the per-flap
  step \<open>4096 / 12 = 341\<close> taken as a unit yields \<open>110 + 5 * 341 = 1815\<close>.
\<close>

theorem target_pos_unit_step_counterexample:
  "(5 :: byte) < num_digits 0 \<and> uint (target_pos 0 5) = 1816 \<and> unit_step_target 0 5 = 1815"
  by (simp add: target_pos_hours_5 unit_step_target_def starting_offset_def num_digits_def
                starting_digits_def STEPS_PER_REV_def num_flaps_def)

text \<open>
  C3, amended. For every wheel and every digit in \<open>[0, digit_count)\<close> the target is
  \<open>starting_offset + (((digit_count + digit - starting_digit) mod digit_count) *
  STEPS_PER_REV) / flap_count\<close>: the product with \<open>STEPS_PER_REV\<close> is formed first and
  the integer division by the flap count is applied to the product, with no
  wrap-around in 16 bits. For the hours wheel digit 0 yields 110 and digit 5 yields
  \<open>110 + (5 * 4096) / 12 = 1816\<close>.
\<close>

theorem target_pos_product_first:
  assumes "n < 3" and "digit < num_digits n"
  shows "uint (target_pos n digit) =
           uint (starting_offset ! n) +
             (((uint (num_digits n) + uint digit - uint (starting_digits ! n))
                 mod uint (num_digits n)) * uint STEPS_PER_REV) div uint (num_flaps n)
         \<and> target_pos 0 0 = 110
         \<and> uint (target_pos 0 5) = 110 + (5 * uint STEPS_PER_REV) div 12"
  using target_pos_uint [OF assms(1), of digit]
  by (simp add: target_pos_hours_0 target_pos_hours_5 STEPS_PER_REV_def)

theorem target_pos_product_first_witness:
  "(2::nat) < 3 \<and> (7 :: byte) < num_digits 2 \<and> uint (target_pos 2 7) = 3541"
  using target_pos_product_first [of 2 7]
  by (simp add: num_digits_def starting_offset_def starting_digits_def num_flaps_def
                STEPS_PER_REV_def)

section \<open>Homing: the order of the two debounced states\<close>

text \<open>
  C2, as stated, fails. With an endstop that reads pressed for three samples and
  released from then on, homing of the hours wheel completes after six samples:
  three "pressed" and then three "not pressed". No "pressed" sample follows a "not
  pressed" one, so the order "released, then pressed" of the claim never occurred.
\<close>

theorem step_to_home_release_first_counterexample:
  "map_option reads (returned_value (step_to_home press_release 0 init_state)) = Some 6
   \<and> map (\<lambda>i. pressed (press_release (endstop_pins ! 0) i)) [0..<6]
       = [True, True, True, False, False, False]
   \<and> \<not> released_then_pressed press_release (endstop_pins ! 0) 0 6"
proof -
  from press_release_run obtain s' where
    "step_to_home press_release 0 init_state = Returned s'" "reads s' = 6" by blast
  then have a: "map_option reads (returned_value (step_to_home press_release 0 init_state)) = Some 6"
    by (simp add: returned_value_def)
  have u: "[0..<6] = [0, 1, 2, 3, 4, 5]" "[0..<3] = [0, 1, 2]" by (simp_all add: upt_rec)
  have b: "map (\<lambda>i. pressed (press_release (endstop_pins ! 0) i)) [0..<6]
       = [True, True, True, False, False, False]"
    by (simp add: u pressed_def press_release_def)
  have c: "\<not> released_then_pressed press_release (endstop_pins ! 0) 0 6"
    by (simp add: released_then_pressed_def u pressed_def press_release_def)
  from a b c show ?thesis by blast
qed

text \<open>
  C2, amended. Whenever \<open>step_to_home\<close> returns, it has first observed
  \<open>ENDSTOP_DEBOUNCE_READS\<close> consecutive "pressed" samples (the last three of the
  \<open>a\<close> samples of its first loop) and then \<open>ENDSTOP_DEBOUNCE_READS\<close> consecutive "not
  pressed" samples (the last three of the \<open>b\<close> samples of its second loop), in that
  order and never directly; and it has set the wheel's position to 0.
\<close>

theorem step_to_home_pressed_then_released:
  assumes "step_to_home sensor n s = Returned s'"
  shows "\<exists>a b. 3 \<le> a \<and> 3 \<le> b \<and> reads s' = reads s + a + b \<and>
           (\<forall>i<3. pressed (sensor (endstop_pins ! n) (reads s + a - 3 + i))) \<and>
           (\<forall>i<3. \<not> pressed (sensor (endstop_pins ! n) (reads s + a + b - 3 + i))) \<and>
           stepper_pos s' = (stepper_pos s)[n := 0]"
proof -
  from step_to_home_Returned [OF assms] obtain a b where
    "3 \<le> a" "3 \<le> b" "reads s' = reads s + a + b"
    "stepper_pos s' = (stepper_pos s)[n := 0]"
    "\<forall>i<3. sensor (endstop_pins ! n) (reads s + a - 3 + i) = LOW"
    "\<forall>i<3. sensor (endstop_pins ! n) (reads s + a + b - 3 + i) = HIGH"
    by blast
  then show ?thesis by (intro exI [of _ a] exI [of _ b]) (simp add: pressed_def)
qed

theorem step_to_home_pressed_then_released_witness:
  "\<exists>s'. step_to_home press_release 0 init_state = Returned s' \<and>
     (\<exists>a b. 3 \<le> a \<and> 3 \<le> b \<and> reads s' = reads init_state + a + b \<and>
        (\<forall>i<3. pressed (press_release (endstop_pins ! 0) (reads init_state + a - 3 + i))) \<and>
        (\<forall>i<3. \<not> pressed (press_release (endstop_pins ! 0) (reads init_state + a + b - 3 + i))) \<and>
        stepper_pos s' = (stepper_pos init_state)[0 := 0])"
proof -
  from press_release_run obtain s' where
    h: "step_to_home press_release 0 init_state = Returned s'" by blast
  from step_to_home_pressed_then_released [OF h] h show ?thesis by blast
qed

section \<open>Homing: the step ceiling\<close>

text \<open>
  C4, as stated, fails: the two states do not count independently. With an endstop
  released for 5000 samples and pressed from then on, the first loop of the hours
  wheel's homing returns with \<open>total_steps = 5003\<close>, and homing halts after 8193
  half-steps in all: the second loop has then taken \<open>8193 - 5003 = 3190\<close> half-steps
  of its own, which does not exceed \<open>2 * STEPS_PER_REV = 8192\<close>.
\<close>

theorem step_to_home_shared_count_counterexample:
  "map_option fst (returned_value (seek LOW stuck_pressed 0 0 0 init_state)) = Some 5003
   \<and> map_option (\<lambda>h. length (trace h)) (halted_state (step_to_home stuck_pressed 0 init_state))
       = Some 8193"
proof -
  from stuck_first_state obtain s1 where
    one: "seek LOW stuck_pressed 0 0 0 init_state = Returned (5003, s1)"
    by (auto simp: returned_value_def split: outcome.splits)
  from seek_Returned [OF one] have r1: "reads s1 = 5003"
    by (auto simp: init_state_def)
  have "\<forall>i\<ge>reads s1. stuck_pressed (endstop_pins ! 0) i \<noteq> HIGH"
    by (simp add: r1 stuck_pressed_def)
  from seek_never [of s1 stuck_pressed 0 HIGH 5003, OF this] obtain h where
    two: "seek HIGH stuck_pressed 0 5003 0 s1 = Halted h" by blast
  from one two have h: "step_to_home stuck_pressed 0 init_state = Halted h"
    by (simp add: step_to_home_def)
  from step_to_home_Halted [OF h] have "length (trace h) = 8193"
    by (simp add: init_state_def)
  with h show ?thesis by (simp add: stuck_first_state halted_state_def)
qed

text \<open>
  C4, amended. \<open>step_to_home\<close> keeps one count of half-steps for both seeking states
  (the second continues the count of the first) and halts, coils disabled, when
  that count exceeds \<open>2 * STEPS_PER_REV\<close> before the debounce condition of the
  current state is met: every halt comes after exactly \<open>2 * STEPS_PER_REV + 1 = 8193\<close>
  half-steps (and samples) of the whole homing, with the position untouched; every
  return comes after at most 8192; and if the endstop never reports "pressed",
  homing does halt.
\<close>

theorem step_to_home_failure:
  assumes "n < 3"
  shows "(\<forall>h. step_to_home sensor n s = Halted h \<longrightarrow>
            trace h = trace s @ replicate 8193 n \<and> reads h = reads s + 8193 \<and>
            stepper_pos h = stepper_pos s \<and>
            (\<forall>k<4. pins h (stepper_pins ! n ! k) = LOW))
       \<and> (\<forall>s'. step_to_home sensor n s = Returned s' \<longrightarrow>
            (\<exists>j\<le>8192. trace s' = trace s @ replicate j n))
       \<and> ((\<forall>i. \<not> pressed (sensor (endstop_pins ! n) i)) \<longrightarrow>
            (\<exists>h. step_to_home sensor n s = Halted h))"
proof (intro conjI allI impI)
  fix h assume h: "step_to_home sensor n s = Halted h"
  from step_to_home_Halted [OF h]
  show "trace h = trace s @ replicate 8193 n" "reads h = reads s + 8193"
    "stepper_pos h = stepper_pos s" by simp_all
  fix k :: nat assume "k < 4"
  with step_to_home_Halted [OF h] show "pins h (stepper_pins ! n ! k) = LOW" by blast
next
  fix s' assume "step_to_home sensor n s = Returned s'"
  from step_to_home_Returned [OF this] obtain a b where
    "a + b \<le> 8192" "trace s' = trace s @ replicate (a + b) n" by blast
  then show "\<exists>j\<le>8192. trace s' = trace s @ replicate j n" by blast
next
  assume "\<forall>i. \<not> pressed (sensor (endstop_pins ! n) i)"
  then have "\<forall>i. sensor (endstop_pins ! n) i = HIGH"
    by (metis level.exhaust pressed_def)
  then show "\<exists>h. step_to_home sensor n s = Halted h" by (rule step_to_home_never_pressed)
qed

theorem step_to_home_failure_witness:
  "(0::nat) < 3 \<and>
   map_option (\<lambda>h. length (trace h)) (halted_state (step_to_home never_pressed 0 init_state))
     = Some 8193"
proof -
  have np: "\<forall>i. \<not> pressed (never_pressed (endstop_pins ! 0) i)"
    by (simp add: never_pressed_def pressed_def)
  have w: "(0::nat) < 3" by simp
  from step_to_home_failure [OF w, of never_pressed init_state] np
  obtain h where h: "step_to_home never_pressed 0 init_state = Halted h" by blast
  with step_to_home_failure [OF w, of never_pressed init_state]
  have "trace h = trace init_state @ replicate 8193 0" by blast
  with h show ?thesis by (simp add: halted_state_def init_state_def)
qed

section \<open>Position planner: where a move ends and how many half-steps it takes\<close>

text \<open>
  C1, as stated, fails in its count of half-steps. The hours wheel stands at 100
  and is sent to 50; the endstop reads pressed for three samples and released from
  then on. The wheel re-homes in six half-steps and then takes 50: 56 half-steps in
  all. The forward distance from 100 to 50 is 4046, and neither 4046 nor 4046 plus
  a lap of 4096 is 56: the half-steps of a re-homing are as many as the endstop
  takes to be seen, not a fixed lap.
\<close>

theorem step_to_position_fixed_lap_counterexample:
  "map_option (\<lambda>s'. length (trace s')) (returned_value (step_to_position press_release 0 50 behind_state))
     = Some 56
   \<and> stepper_pos behind_state ! 0 = 100
   \<and> forward_distance 100 (50 mod STEPS_PER_REV) = 4046
   \<and> unat STEPS_PER_REV = 4096"
proof -
  from behind_run obtain s' where
    "step_to_position press_release 0 50 behind_state = Returned s'" "length (trace s') = 56"
    by blast
  then have "map_option (\<lambda>s'. length (trace s'))
      (returned_value (step_to_position press_release 0 50 behind_state)) = Some 56"
    by (simp add: returned_value_def)
  moreover have "forward_distance 100 (50 mod STEPS_PER_REV) = 4046"
    by (simp add: forward_distance_def STEPS_PER_REV_def)
  ultimately show ?thesis
    by (simp add: behind_state_def init_state_def STEPS_PER_REV_def)
qed

text \<open>
  C1, amended. For every wheel and every target, after \<open>step_to_position\<close> returns,
  the wheel's position equals \<open>target mod STEPS_PER_REV\<close>. When the normalized target
  is not less than the position before the call, no endstop sample is taken and the
  number of half-steps equals the forward distance from that position to the
  normalized target. When it is less, the wheel is re-homed first and the number of
  half-steps is the number \<open>k\<close> that this homing took (between
  \<open>2 * ENDSTOP_DEBOUNCE_READS = 6\<close> and \<open>2 * STEPS_PER_REV = 8192\<close>, as the endstop
  decides) plus the normalized target.
\<close>

theorem step_to_position_result:
  assumes "wheels_ok s" and "n < 3" and "step_to_position sensor n target s = Returned s'"
  shows "stepper_pos s' ! n = target mod STEPS_PER_REV
       \<and> (\<not> target mod STEPS_PER_REV < stepper_pos s ! n \<longrightarrow>
            reads s' = reads s \<and>
            trace s' = trace s @ replicate
              (forward_distance (stepper_pos s ! n) (target mod STEPS_PER_REV)) n)
       \<and> (target mod STEPS_PER_REV < stepper_pos s ! n \<longrightarrow>
            (\<exists>sh k. step_to_home sensor n s = Returned sh \<and>
               trace sh = trace s @ replicate k n \<and> 6 \<le> k \<and> k \<le> 8192 \<and>
               trace s' = trace s @ replicate (k + unat (target mod STEPS_PER_REV)) n))"
proof -
  define t where "t = target mod STEPS_PER_REV"
  have len: "n < length (stepper_pos s)" using assms(1,2) by (simp add: wheels_ok_def)
  have pos: "stepper_pos s ! n < STEPS_PER_REV" using assms(1,2) by (rule wheels_ok_pos)
  have tl: "t < STEPS_PER_REV" unfolding t_def by (rule mod_rev_less)
  have a: "stepper_pos s' ! n = t"
  proof (cases "target = stepper_pos s ! n")
    case True
    with assms(3) have "s' = s" by (simp add: step_to_position_same)
    with True pos show ?thesis by (simp add: t_def mod_rev_id)
  next
    case False
    from step_to_position_pos [OF len assms(3) False] len show ?thesis by (simp add: t_def)
  qed
  have b: "reads s' = reads s \<and>
           trace s' = trace s @ replicate (forward_distance (stepper_pos s ! n) t) n"
    if ahead: "\<not> t < stepper_pos s ! n"
  proof (cases "target = stepper_pos s ! n")
    case True
    with assms(3) have s': "s' = s" by (simp add: step_to_position_same)
    from True pos have "t = stepper_pos s ! n" by (simp add: t_def mod_rev_id)
    then have "forward_distance (stepper_pos s ! n) t = 0"
      using forward_distance_ahead [OF ahead tl] by simp
    with s' show ?thesis by simp
  next
    case False
    from step_to_position_ahead [OF False ahead [unfolded t_def]] assms(3)
    have "s' = step_num n (t - stepper_pos s ! n) s" by (simp add: t_def)
    with forward_distance_ahead [OF ahead tl] show ?thesis by simp
  qed
  have c: "\<exists>sh k. step_to_home sensor n s = Returned sh \<and>
               trace sh = trace s @ replicate k n \<and> 6 \<le> k \<and> k \<le> 8192 \<and>
               trace s' = trace s @ replicate (k + unat t) n"
    if behind: "t < stepper_pos s ! n"
  proof -
    have ne: "target \<noteq> stepper_pos s ! n"
    proof
      assume "target = stepper_pos s ! n"
      with pos have "t = stepper_pos s ! n" by (simp add: t_def mod_rev_id)
      with behind show False by simp
    qed
    from step_to_position_behind [OF ne behind [unfolded t_def]] assms(3)
    obtain sh where h: "step_to_home sensor n s = Returned sh" and s': "s' = step_num n t sh"
      by (auto simp: t_def split: outcome.splits)
    from step_to_home_Returned [OF h] obtain a b where
      ab: "3 \<le> a" "3 \<le> b" "a + b \<le> 8192" "trace sh = trace s @ replicate (a + b) n"
      by blast
    have "trace s' = trace s @ replicate (a + b + unat t) n"
      using ab(4) by (simp add: s' replicate_add)
    moreover have "6 \<le> a + b" using ab(1,2) by linarith
    ultimately show ?thesis using h ab(3,4) by blast
  qed
  from a b c show ?thesis unfolding t_def by blast
qed

theorem step_to_position_result_witness:
  "wheels_ok behind_state \<and> (0::nat) < 3 \<and>
   (\<exists>s'. step_to_position press_release 0 50 behind_state = Returned s' \<and>
      stepper_pos s' ! 0 = 50 mod STEPS_PER_REV \<and>
      (\<exists>sh k. step_to_home press_release 0 behind_state = Returned sh \<and>
         trace sh = trace behind_state @ replicate k 0 \<and> 6 \<le> k \<and> k \<le> 8192 \<and>
         trace s' = trace behind_state @ replicate (k + unat (50 mod STEPS_PER_REV :: uint)) 0)) \<and>
   (\<exists>s'. step_to_position press_release 0 200 behind_state = Returned s' \<and>
      stepper_pos s' ! 0 = 200 mod STEPS_PER_REV \<and> reads s' = reads behind_state \<and>
      trace s' = trace behind_state @ replicate
        (forward_distance (stepper_pos behind_state ! 0) (200 mod STEPS_PER_REV)) 0)"
proof -
  have ok: "wheels_ok behind_state"
    by (simp add: wheels_ok_def behind_state_def init_state_def STEPS_PER_REV_def)
  have w: "(0::nat) < 3" by simp
  from behind_run obtain s' where
    r: "step_to_position press_release 0 50 behind_state = Returned s'" by blast
  have behind: "50 mod STEPS_PER_REV < stepper_pos behind_state ! 0"
    by (simp add: behind_state_def init_state_def STEPS_PER_REV_def)
  note res = step_to_position_result [OF ok w r]
  from res have p: "stepper_pos s' ! 0 = 50 mod STEPS_PER_REV" by (rule conjunct1)
  from res have "50 mod STEPS_PER_REV < stepper_pos behind_state ! 0 \<longrightarrow>
      (\<exists>sh k. step_to_home press_release 0 behind_state = Returned sh \<and>
         trace sh = trace behind_state @ replicate k 0 \<and> 6 \<le> k \<and> k \<le> 8192 \<and>
         trace s' = trace behind_state @ replicate (k + unat (50 mod STEPS_PER_REV :: uint)) 0)"
    by (rule conjunct2 [THEN conjunct2])
  from this behind have q: "\<exists>sh k. step_to_home press_release 0 behind_state = Returned sh \<and>
         trace sh = trace behind_state @ replicate k 0 \<and> 6 \<le> k \<and> k \<le> 8192 \<and>
         trace s' = trace behind_state @ replicate (k + unat (50 mod STEPS_PER_REV :: uint)) 0"
    by (rule mp)
  from r p q have "step_to_position press_release 0 50 behind_state = Returned s' \<and>
      stepper_pos s' ! 0 = 50 mod STEPS_PER_REV \<and>
      (\<exists>sh k. step_to_home press_release 0 behind_state = Returned sh \<and>
         trace sh = trace behind_state @ replicate k 0 \<and> 6 \<le> k \<and> k \<le> 8192 \<and>
         trace s' = trace behind_state @ replicate (k + unat (50 mod STEPS_PER_REV :: uint)) 0)"
    by (intro conjI)
  then have "\<exists>s'. step_to_position press_release 0 50 behind_state = Returned s' \<and>
      stepper_pos s' ! 0 = 50 mod STEPS_PER_REV \<and>
      (\<exists>sh k. step_to_home press_release 0 behind_state = Returned sh \<and>
         trace sh = trace behind_state @ replicate k 0 \<and> 6 \<le> k \<and> k \<le> 8192 \<and>
         trace s' = trace behind_state @ replicate (k + unat (50 mod STEPS_PER_REV :: uint)) 0)"
    by (rule exI)
  note first = this
  have ne: "200 \<noteq> stepper_pos behind_state ! 0"
    and ahead: "\<not> 200 mod STEPS_PER_REV < stepper_pos behind_state ! 0"
    by (simp_all add: behind_state_def init_state_def STEPS_PER_REV_def)
  define s2 where
    "s2 = step_num 0 (200 mod STEPS_PER_REV - stepper_pos behind_state ! 0) behind_state"
  have r2: "step_to_position press_release 0 200 behind_state = Returned s2"
    unfolding s2_def using ne ahead by (rule step_to_position_ahead)
  note res2 = step_to_position_result [OF ok w r2]
  from res2 have p2: "stepper_pos s2 ! 0 = 200 mod STEPS_PER_REV" by (rule conjunct1)
  from res2 have "\<not> 200 mod STEPS_PER_REV < stepper_pos behind_state ! 0 \<longrightarrow>
      reads s2 = reads behind_state \<and>
      trace s2 = trace behind_state @ replicate
        (forward_distance (stepper_pos behind_state ! 0) (200 mod STEPS_PER_REV)) 0"
    by (rule conjunct2 [THEN conjunct1])
  from this ahead have q2: "reads s2 = reads behind_state \<and>
      trace s2 = trace behind_state @ replicate
        (forward_distance (stepper_pos behind_state ! 0) (200 mod STEPS_PER_REV)) 0"
    by (rule mp)
  from q2 have q2a: "reads s2 = reads behind_state" by (rule conjunct1)
  from q2 have q2b: "trace s2 = trace behind_state @ replicate
        (forward_distance (stepper_pos behind_state ! 0) (200 mod STEPS_PER_REV)) 0"
    by (rule conjunct2)
  from r2 p2 q2a q2b
  have "step_to_position press_release 0 200 behind_state = Returned s2 \<and>
      stepper_pos s2 ! 0 = 200 mod STEPS_PER_REV \<and> reads s2 = reads behind_state \<and>
      trace s2 = trace behind_state @ replicate
        (forward_distance (stepper_pos behind_state ! 0) (200 mod STEPS_PER_REV)) 0"
    by (intro conjI)
  then have second: "\<exists>s'. step_to_position press_release 0 200 behind_state = Returned s' \<and>
      stepper_pos s' ! 0 = 200 mod STEPS_PER_REV \<and> reads s' = reads behind_state \<and>
      trace s' = trace behind_state @ replicate
        (forward_distance (stepper_pos behind_state ! 0) (200 mod STEPS_PER_REV)) 0"
    by (rule exI)
  from ok w first second show ?thesis by (intro conjI)
qed

section \<open>Position planner: a repeated move does nothing\<close>

text \<open>
  C7. If \<open>step_to_position\<close> returned for a wheel and a target, a second call with
  the same target, whatever the endstop then reads, returns the very same state: no
  half-step is taken (the trace is unchanged), the wheel is not re-homed (no endstop
  sample is taken), and position and phase are unchanged.
\<close>

theorem step_to_position_twice:
  assumes "n < length (stepper_pos s)"
    and "step_to_position sensor n target s = Returned s1"
  shows "step_to_position sensor' n target s1 = Returned s1"
proof (cases "target = stepper_pos s ! n")
  case True
  with assms(2) have "s1 = s" by (simp add: step_to_position_same)
  with True show ?thesis by (simp add: step_to_position_same)
next
  case False
  from step_to_position_pos [OF assms False]
  have p: "stepper_pos s1 = (stepper_pos s)[n := target mod STEPS_PER_REV]" .
  with assms(1) have at: "stepper_pos s1 ! n = target mod STEPS_PER_REV" by simp
  show ?thesis
  proof (cases "target = stepper_pos s1 ! n")
    case True
    then show ?thesis by (simp add: step_to_position_same)
  next
    case ne: False
    have "\<not> target mod STEPS_PER_REV < stepper_pos s1 ! n" by (simp add: at)
    from step_to_position_ahead [OF ne this]
    have "step_to_position sensor' n target s1 = Returned (step_num n 0 s1)" by (simp add: at)
    moreover have "(stepper_pos s1)[n := target mod STEPS_PER_REV] = stepper_pos s1"
      unfolding at [symmetric] by (rule list_update_id)
    then have "step_num n 0 s1 = s1"
      by (simp add: step_num_def at mod_rev_twice)
    ultimately show ?thesis by simp
  qed
qed

theorem step_to_position_twice_witness:
  "(0::nat) < length (stepper_pos behind_state) \<and>
   (\<exists>s1. step_to_position press_release 0 50 behind_state = Returned s1 \<and>
      step_to_position never_pressed 0 50 s1 = Returned s1)"
proof -
  have len: "(0::nat) < length (stepper_pos behind_state)"
    by (simp add: behind_state_def init_state_def)
  from behind_run obtain s1 where
    r: "step_to_position press_release 0 50 behind_state = Returned s1" by blast
  from step_to_position_twice [OF len r, of never_pressed] r len show ?thesis by blast
qed

section \<open>The invariant of the wheels, and where positions change\<close>

text \<open>
  C9. Every operation keeps each wheel's position below \<open>STEPS_PER_REV\<close> and each
  half-step phase below 8, also when it ends in the halt. The positions are left
  alone by \<open>half_step\<close> and \<open>disable_stepper\<close>; \<open>step_num\<close> replaces the wheel's
  position by \<open>(position + steps) mod STEPS_PER_REV\<close>; \<open>step_to_home\<close> sets it to 0
  when homing completes and leaves it alone when homing fails; and \<open>step_to_position\<close>
  and \<open>step_to_digit\<close>, which change positions through these two only, leave the
  wheel at the normalized target or, on a failed homing, where it was. The positions
  of the other wheels never change.
\<close>

theorem wheels_invariant_preserved:
  assumes "wheels_ok s" and "n < 3"
  shows "wheels_ok (half_step n s) \<and> stepper_pos (half_step n s) = stepper_pos s
       \<and> wheels_ok (disable_stepper n s) \<and> stepper_pos (disable_stepper n s) = stepper_pos s
       \<and> wheels_ok (step_num n k s)
       \<and> stepper_pos (step_num n k s)
           = (stepper_pos s)[n := (stepper_pos s ! n + k) mod STEPS_PER_REV]
       \<and> (case step_to_home sensor n s of
            Halted h \<Rightarrow> wheels_ok h \<and> stepper_pos h = stepper_pos s
          | Returned s' \<Rightarrow> wheels_ok s' \<and> stepper_pos s' = (stepper_pos s)[n := 0])
       \<and> (case step_to_position sensor n target s of
            Halted h \<Rightarrow> wheels_ok h \<and> stepper_pos h = stepper_pos s
          | Returned s' \<Rightarrow> wheels_ok s' \<and>
              stepper_pos s' = (stepper_pos s)[n := target mod STEPS_PER_REV])
       \<and> (case step_to_digit sensor n digit s of
            Halted h \<Rightarrow> wheels_ok h \<and> stepper_pos h = stepper_pos s
          | Returned s' \<Rightarrow> wheels_ok s' \<and>
              (stepper_pos s' = (stepper_pos s)[n := target_pos n digit mod STEPS_PER_REV] \<or>
               stepper_pos s' = (stepper_pos s)[n := second_target n digit mod STEPS_PER_REV]))"
proof -
  have home: "case step_to_home sensor n s of
            Halted h \<Rightarrow> wheels_ok h \<and> stepper_pos h = stepper_pos s
          | Returned s' \<Rightarrow> wheels_ok s' \<and> stepper_pos s' = (stepper_pos s)[n := 0]"
  proof (cases "step_to_home sensor n s")
    case (Halted h)
    with step_to_home_wheels_ok [OF assms(1), of sensor n] step_to_home_Halted [OF Halted]
    show ?thesis by simp
  next
    case (Returned s')
    from step_to_home_Returned [OF Returned]
    have "stepper_pos s' = (stepper_pos s)[n := 0]" by blast
    with step_to_home_wheels_ok [OF assms(1), of sensor n] Returned show ?thesis by simp
  qed
  show ?thesis
    using assms(1) home
      step_to_position_frame [OF assms, where sensor = sensor and target = target]
      step_to_digit_frame [OF assms, where sensor = sensor and digit = digit]
    by (simp add: wheels_ok_half_step wheels_ok_step_num)
qed

theorem wheels_invariant_preserved_witness:
  "wheels_ok behind_state \<and> (0::nat) < 3
   \<and> wheels_ok (half_step 0 behind_state)
   \<and> wheels_ok (step_num 0 5000 behind_state)
   \<and> stepper_pos (step_num 0 5000 behind_state) = [1004, 0, 0]"
proof -
  have ok: "wheels_ok behind_state"
    by (simp add: wheels_ok_def behind_state_def init_state_def STEPS_PER_REV_def)
  have w: "(0::nat) < 3" by simp
  have "(stepper_pos behind_state)[0 := (stepper_pos behind_state ! 0 + 5000) mod STEPS_PER_REV]
          = [1004, 0, 0]"
    by (simp add: behind_state_def init_state_def STEPS_PER_REV_def)
  with wheels_invariant_preserved [OF ok w, where k = 5000 and sensor = press_release
         and target = 50 and digit = 0] ok show ?thesis
    by simp
qed

section \<open>Digit mapper: the nearer of the two occurrences on the tens wheel\<close>



section \<open>Boot: clearing the shared endstop\<close>

text \<open>
  C8, as stated, fails: the routine does not end as soon as the shared line reads
  released. With a line that reads pressed at the loop test, released after the
  first nudge of the tens wheel (sample 1) and pressed again at the next loop test,
  the routine goes on: it nudges the tens wheel a second time and returns only at
  sample 4, with 400 half-steps of the tens wheel taken and 400 counted.
\<close>

theorem clear_shared_endstop_release_counterexample:
  "\<not> pressed (flicker (endstop_pins ! 1) 1)
   \<and> map_option (\<lambda>r. (fst r, reads (snd r), trace (snd r)))
        (returned_value (clear_shared_endstop flicker init_state))
       = Some (400, 5, replicate 200 1 @ replicate 200 1)"
proof -
  from flicker_run obtain s' where
    "clear_shared_endstop flicker init_state = Returned (400, s')" "reads s' = 5"
    "trace s' = replicate 200 1 @ replicate 200 1" by blast
  then show ?thesis by (simp add: returned_value_def pressed_def flicker_def)
qed

text \<open>
  C8, amended. The clearing routine works in rounds. Before each round it samples
  the shared line (samples \<open>reads s + 2 * r\<close>) and returns at the first such sample
  that reads released; a sample taken inside a round, after the first wheel's
  nudge, only decides whether the second wheel is nudged too, and never ends the
  routine. Each round takes a batch of 200 half-steps of the first wheel and then,
  if the line still reads pressed, 200 of the second, and adds 200 to the counted
  total. The routine returns after \<open>k \<le> 20\<close> rounds, the counted total \<open>200 * k\<close>
  being at most \<open>STEPS_PER_REV\<close>; it halts exactly when the loop test read pressed 21
  times in a row, the counted total \<open>4200\<close> then exceeding \<open>STEPS_PER_REV\<close>.
\<close>

theorem clear_shared_endstop_rounds:
  "(\<forall>tot s'. clear_shared_endstop sensor s = Returned (tot, s') \<longrightarrow>
      (\<exists>k\<le>20. unat tot = 200 * k \<and> reads s' = reads s + 2 * k + 1 \<and>
         (\<forall>r<k. pressed (sensor (endstop_pins ! 1) (reads s + 2 * r))) \<and>
         \<not> pressed (sensor (endstop_pins ! 1) (reads s + 2 * k)) \<and>
         trace s' = trace s @ nudges sensor (reads s) k))
   \<and> (\<forall>h. clear_shared_endstop sensor s = Halted h \<longrightarrow>
        (\<forall>r<21. pressed (sensor (endstop_pins ! 1) (reads s + 2 * r))) \<and>
        reads h = reads s + 42 \<and> trace h = trace s @ nudges sensor (reads s) 21)"
proof -
  have ret: "\<forall>tot s'. clear_shared_endstop sensor s = Returned (tot, s') \<longrightarrow>
      (\<exists>k\<le>20. unat tot = 200 * k \<and> reads s' = reads s + 2 * k + 1 \<and>
         (\<forall>r<k. pressed (sensor (endstop_pins ! 1) (reads s + 2 * r))) \<and>
         \<not> pressed (sensor (endstop_pins ! 1) (reads s + 2 * k)) \<and>
         trace s' = trace s @ nudges sensor (reads s) k)"
  proof (intro allI impI)
    fix tot s' assume "clear_shared_endstop sensor s = Returned (tot, s')"
    then have "clear_loop sensor 0 s = Returned (tot, s')"
      by (simp add: clear_shared_endstop_def endstop_pins_def)
    from clear_loop_Returned [OF this] obtain k where k:
      "reads s' = reads s + 2 * k + 1"
      "\<forall>r<k. sensor (endstop_pins ! 1) (reads s + 2 * r) = LOW"
      "sensor (endstop_pins ! 1) (reads s + 2 * k) = HIGH"
      "trace s' = trace s @ nudges sensor (reads s) k"
      "0 < k \<longrightarrow> unat tot \<le> 4096" "unat tot = 200 * k"
      by auto
    have "k \<le> 20" using k(5,6) by (cases "0 < k") auto
    with k show "\<exists>k\<le>20. unat tot = 200 * k \<and> reads s' = reads s + 2 * k + 1 \<and>
           (\<forall>r<k. pressed (sensor (endstop_pins ! 1) (reads s + 2 * r))) \<and>
           \<not> pressed (sensor (endstop_pins ! 1) (reads s + 2 * k)) \<and>
           trace s' = trace s @ nudges sensor (reads s) k"
      by (intro exI [of _ k]) (simp add: pressed_def)
  qed
  have halt: "\<forall>h. clear_shared_endstop sensor s = Halted h \<longrightarrow>
        (\<forall>r<21. pressed (sensor (endstop_pins ! 1) (reads s + 2 * r))) \<and>
        reads h = reads s + 42 \<and> trace h = trace s @ nudges sensor (reads s) 21"
  proof (intro allI impI)
    fix h assume "clear_shared_endstop sensor s = Halted h"
    then have "clear_loop sensor 0 s = Halted h"
      by (simp add: clear_shared_endstop_def endstop_pins_def)
    from clear_loop_Halted [OF this] obtain k where k:
      "reads h = reads s + 2 * Suc k"
      "\<forall>r<Suc k. sensor (endstop_pins ! 1) (reads s + 2 * r) = LOW"
      "trace h = trace s @ nudges sensor (reads s) (Suc k)"
      "4096 < 200 * Suc k" "200 * k \<le> 4096"
      by auto
    have "k = 20" using k(4,5) by simp
    then have k21: "Suc k = 21" by simp
    have a: "\<forall>r<21. pressed (sensor (endstop_pins ! 1) (reads s + 2 * r))"
      using k(2) unfolding k21 by (simp add: pressed_def)
    have b: "reads h = reads s + 42" using k(1) unfolding k21 by simp
    have c: "trace h = trace s @ nudges sensor (reads s) 21" using k(3) unfolding k21 .
    from a b c show "(\<forall>r<21. pressed (sensor (endstop_pins ! 1) (reads s + 2 * r))) \<and>
        reads h = reads s + 42 \<and> trace h = trace s @ nudges sensor (reads s) 21"
      by (intro conjI)
  qed
  from ret halt show ?thesis by (rule conjI)
qed

theorem clear_shared_endstop_rounds_witness:
  "\<exists>tot s'. clear_shared_endstop flicker init_state = Returned (tot, s') \<and>
      (\<exists>k\<le>20. unat tot = 200 * k \<and> reads s' = reads init_state + 2 * k + 1 \<and>
         (\<forall>r<k. pressed (flicker (endstop_pins ! 1) (reads init_state + 2 * r))) \<and>
         \<not> pressed (flicker (endstop_pins ! 1) (reads init_state + 2 * k)) \<and>
         trace s' = trace init_state @ nudges flicker (reads init_state) k)"
proof -
  from flicker_run obtain s' where
    r: "clear_shared_endstop flicker init_state = Returned (400, s')" by blast
  from clear_shared_endstop_rounds [of flicker init_state] r
  have "\<exists>k\<le>20. unat (400 :: uint) = 200 * k \<and> reads s' = reads init_state + 2 * k + 1 \<and>
         (\<forall>r<k. pressed (flicker (endstop_pins ! 1) (reads init_state + 2 * r))) \<and>
         \<not> pressed (flicker (endstop_pins ! 1) (reads init_state + 2 * k)) \<and>
         trace s' = trace init_state @ nudges flicker (reads init_state) k"
    by blast
  with r show ?thesis by blast
qed

section \<open>Time to digits: the daylight-saving hour\<close>



section \<open>Time to digits: the digits are in range\<close>



end
